theory Spec2Isabelle
  imports Complex_Main
begin

section \<open>The detector of \<^verbatim>\<open>speech/detector.go\<close> and its \<^verbatim>\<open>Infer\<close> method\<close>

text \<open>
  Conventions of the embedding.
  \<^item> A Go method with a pointer receiver takes the detector and returns the updated
    detector next to its results. A Go result \<^verbatim>\<open>(v, err)\<close> is the pair
    \<open>(v, e)\<close> with \<open>e :: error option\<close>: \<open>None\<close> is \<^verbatim>\<open>nil\<close>, and the value the
    source returns beside an error (\<^verbatim>\<open>nil\<close>, \<^verbatim>\<open>0\<close>, the event built so far) is kept.
    The receiver is a constructed detector: the \<^verbatim>\<open>sd == nil\<close> guards are not modelled.
  \<^item> Go's \<^verbatim>\<open>int\<close> has 64 bits. The sample counters grow by one window per inference
    and stay far below \<open>2 ^ 63\<close> on every input that can be supplied, so they are
    \<open>int\<close>. The products of configuration values in \<^verbatim>\<open>Detect\<close> and \<^verbatim>\<open>DetectStream\<close>
    can leave that range, since \<^verbatim>\<open>IsValid\<close> sets no upper bound: they wrap around, as
    \<open>wrap64\<close> writes out. Lengths and the window size (0, 256 or 512) are \<open>nat\<close>.
  \<^item> \<^verbatim>\<open>float32\<close> samples and probabilities and \<^verbatim>\<open>float64\<close> timestamps are \<open>rat\<close>:
    every finite float is a rational, comparisons are exact, and the three arithmetic
    steps of the source (\<^verbatim>\<open>Threshold-0.15\<close>, the conversion of a sample count, the
    division by the sample rate) are taken without rounding.
  \<^item> The ONNX runtime is a parameter. A loaded session is a function from the input
    tensor, the recurrent state and the sample rate to either a failure message or the
    probability with the next recurrent state (of \<^verbatim>\<open>stateLen\<close> floats). Tensor dimension
    arrays, C strings and logging carry no behaviour of their own and are left out.
\<close>

definition stateLen :: nat where
  "stateLen = 2 * 1 * 128"

definition contextLen :: nat where
  "contextLen = 64"

record DetectorConfig =
  ModelPath :: string
  SampleRate :: int
  Threshold :: rat
  MinSilenceDurationMs :: int
  SpeechPadMs :: int

datatype error =
    InvalidModelPath
  | InvalidSampleRate
  | InvalidThreshold
  | InvalidMinSilenceDurationMs
  | InvalidSpeechPadMs
  | InvalidConfig error
  | OrtFailure string
  | NotEnoughSamples
  | InvalidSamplesLength nat nat
  | InferFailed error
  | UnexpectedSpeechEnd
  | SliceBoundsOutOfRange

type_synonym ort_session = "rat list \<Rightarrow> rat list \<Rightarrow> int \<Rightarrow> string + (rat \<times> rat list)"

definition IsValid :: "DetectorConfig \<Rightarrow> error option" where
  "IsValid c =
     (if ModelPath c = [] then Some InvalidModelPath
      else if SampleRate c \<noteq> 8000 \<and> SampleRate c \<noteq> 16000 then Some InvalidSampleRate
      else if Threshold c \<le> 0 \<or> Threshold c \<ge> 1 then Some InvalidThreshold
      else if MinSilenceDurationMs c < 0 then Some InvalidMinSilenceDurationMs
      else if SpeechPadMs c < 0 then Some InvalidSpeechPadMs
      else None)"

record Detector =
  session :: ort_session
  cfg :: DetectorConfig
  state :: "rat list"
  windowSize :: nat
  inputBuf :: "rat list"
  rateValue :: int
  pendingStart :: rat
  pendingStartValid :: bool
  streamBuf :: "rat list"
  currSample :: int
  triggered :: bool
  tempEnd :: int

definition windowSizeForSampleRate :: "int \<Rightarrow> nat" where
  "windowSizeForSampleRate sampleRate = (if sampleRate = 8000 then 256 else 512)"

text \<open>
  \<^verbatim>\<open>NewDetector\<close>: the configuration is validated, the buffers are allocated (zeroed, as
  \<^verbatim>\<open>make\<close> does) and the runtime creates the session from the model path. \<open>ort\<close> stands
  for the chain of runtime calls, any of which may fail with a message.
\<close>

definition NewDetector ::
  "(string \<Rightarrow> string + ort_session) \<Rightarrow> DetectorConfig \<Rightarrow> Detector option \<times> error option" where
  "NewDetector ort c =
     (case IsValid c of
        Some err \<Rightarrow> (None, Some (InvalidConfig err))
      | None \<Rightarrow>
          (case ort (ModelPath c) of
             Inl msg \<Rightarrow> (None, Some (OrtFailure msg))
           | Inr sess \<Rightarrow>
               (Some \<lparr> session = sess, cfg = c,
                       state = replicate stateLen 0,
                       windowSize = windowSizeForSampleRate (SampleRate c),
                       inputBuf = replicate (contextLen + windowSizeForSampleRate (SampleRate c)) 0,
                       rateValue = SampleRate c,
                       pendingStart = 0, pendingStartValid = False,
                       streamBuf = [],
                       currSample = 0, triggered = False, tempEnd = 0 \<rparr>, None)))"

record Segment =
  SpeechStartAt :: rat
  SpeechEndAt :: rat

record speechEvent =
  hasStart :: bool
  startAt :: rat
  hasEnd :: bool
  endAt :: rat
  endStartAt :: rat

text \<open>The zero value \<^verbatim>\<open>speechEvent{}\<close>.\<close>

definition noEvent :: speechEvent where
  "noEvent = \<lparr> hasStart = False, startAt = 0, hasEnd = False, endAt = 0, endStartAt = 0 \<rparr>"

text \<open>
  Go's integer division truncates towards zero; a 64-bit result outside
  \<open>- 2 ^ 63 ..< 2 ^ 63\<close> wraps around into it; the built-in \<^verbatim>\<open>copy(dst, src)\<close> copies
  \<open>min (length dst) (length src)\<close> elements and is given here as the new contents of
  \<open>dst\<close>.
\<close>

definition wrap64 :: "int \<Rightarrow> int" where
  "wrap64 k = (k + 2 ^ 63) mod 2 ^ 64 - 2 ^ 63"

definition go_quot :: "int \<Rightarrow> int \<Rightarrow> int" where
  "go_quot a b = sgn a * sgn b * (\<bar>a\<bar> div \<bar>b\<bar>)"

definition copy_slice :: "'a list \<Rightarrow> 'a list \<Rightarrow> 'a list" where
  "copy_slice dst src = take (length dst) src @ drop (length src) dst"

text \<open>
  \<^verbatim>\<open>Infer\<close>. The samples are copied behind the \<^verbatim>\<open>contextLen\<close> context floats of
  \<^verbatim>\<open>inputBuf\<close>, the session runs on the whole buffer, and on success the recurrent state
  is replaced (\<^verbatim>\<open>memcpy\<close> takes the first \<^verbatim>\<open>stateLen\<close> floats of the output tensor) and
  the tail of the buffer becomes the next context. Every runtime failure happens after
  the first copy and before the state is written back.
\<close>

definition Infer :: "Detector \<Rightarrow> rat list \<Rightarrow> (rat \<times> error option) \<times> Detector" where
  "Infer sd0 samples =
     (let sd1 = (if windowSize sd0 = 0
                 then sd0\<lparr>windowSize := windowSizeForSampleRate (SampleRate (cfg sd0))\<rparr>
                 else sd0)
      in if length samples \<noteq> windowSize sd1
         then ((0, Some (InvalidSamplesLength (windowSize sd1) (length samples))), sd1)
         else
           let expectedInputLen = contextLen + windowSize sd1;
               sd2 = (if length (inputBuf sd1) \<noteq> expectedInputLen
                      then sd1\<lparr>inputBuf := replicate expectedInputLen 0\<rparr> else sd1);
               sd3 = (if rateValue sd2 = 0
                      then sd2\<lparr>rateValue := SampleRate (cfg sd2)\<rparr> else sd2);
               sd4 = sd3\<lparr>inputBuf := take contextLen (inputBuf sd3)
                                      @ copy_slice (drop contextLen (inputBuf sd3)) samples\<rparr>
           in case session sd4 (inputBuf sd4) (state sd4) (rateValue sd4) of
                Inl msg \<Rightarrow> ((0, Some (OrtFailure msg)), sd4)
              | Inr (prob, stateN) \<Rightarrow>
                  ((prob, None),
                   sd4\<lparr>state := take stateLen stateN,
                       inputBuf := copy_slice (take contextLen (inputBuf sd4))
                                              (drop (windowSize sd4) (inputBuf sd4))
                                   @ drop contextLen (inputBuf sd4)\<rparr>))"

text \<open>\<^verbatim>\<open>advanceSpeech\<close>: the hysteresis trigger, one call per window.\<close>

definition advanceSpeech ::
  "Detector \<Rightarrow> rat \<Rightarrow> int \<Rightarrow> int \<Rightarrow> (speechEvent \<times> error option) \<times> Detector" where
  "advanceSpeech sd0 speechProb minSilenceSamples speechPadSamples =
     (let sd1 = (if speechProb \<ge> Threshold (cfg sd0) \<and> tempEnd sd0 \<noteq> 0
                 then sd0\<lparr>tempEnd := 0\<rparr> else sd0);
          (event1, sd2) =
            (if speechProb \<ge> Threshold (cfg sd1) \<and> \<not> triggered sd1
             then
               let raw = of_int (currSample sd1 - int (windowSize sd1) - speechPadSamples)
                           / of_int (SampleRate (cfg sd1));
                   speechStartAt = (if raw < 0 then 0 else raw)
               in (noEvent\<lparr>hasStart := True, startAt := speechStartAt\<rparr>,
                   sd1\<lparr>triggered := True, pendingStart := speechStartAt,
                       pendingStartValid := True\<rparr>)
             else (noEvent, sd1))
      in if speechProb < Threshold (cfg sd2) - 15 / 100 \<and> triggered sd2
         then
           let sd3 = (if tempEnd sd2 = 0 then sd2\<lparr>tempEnd := currSample sd2\<rparr> else sd2)
           in if currSample sd3 - tempEnd sd3 < minSilenceSamples
              then ((event1, None), sd3)
              else
                let speechEndAt = of_int (tempEnd sd3 + speechPadSamples)
                                    / of_int (SampleRate (cfg sd3));
                    sd4 = sd3\<lparr>tempEnd := 0, triggered := False\<rparr>
                in if \<not> pendingStartValid sd4
                   then ((event1, Some UnexpectedSpeechEnd), sd4)
                   else ((event1\<lparr>hasEnd := True, endAt := speechEndAt,
                                  endStartAt := pendingStart sd4\<rparr>, None),
                         sd4\<lparr>pendingStartValid := False\<rparr>)
         else ((event1, None), sd2))"

definition processWindow ::
  "Detector \<Rightarrow> rat list \<Rightarrow> int \<Rightarrow> int \<Rightarrow> (speechEvent \<times> error option) \<times> Detector" where
  "processWindow sd window minSilenceSamples speechPadSamples =
     (case Infer sd window of
        ((speechProb, Some err), sd1) \<Rightarrow> ((noEvent, Some (InferFailed err)), sd1)
      | ((speechProb, None), sd1) \<Rightarrow>
          advanceSpeech (sd1\<lparr>currSample := currSample sd1 + int (windowSize sd1)\<rparr>)
            speechProb minSilenceSamples speechPadSamples)"

text \<open>
  The loop of \<^verbatim>\<open>Detect\<close>, with the index \<open>i\<close> and the segment list as the loop
  variables. \<^verbatim>\<open>Detect\<close> replaces a zero window size before the loop, so the step is
  positive whenever the loop runs; the guard \<open>0 < W\<close> records that and gives the measure.
\<close>

function Detect_loop ::
  "nat \<Rightarrow> int \<Rightarrow> int \<Rightarrow> rat list \<Rightarrow> nat \<Rightarrow> Segment list \<Rightarrow> Detector
     \<Rightarrow> (Segment list \<times> error option) \<times> Detector" where
  "Detect_loop W minSilenceSamples speechPadSamples pcm i segments sd =
     (if 0 < W \<and> i + W \<le> length pcm
      then
        (case processWindow sd (take W (drop i pcm)) minSilenceSamples speechPadSamples of
           ((event, Some err), sd1) \<Rightarrow> (([], Some err), sd1)
         | ((event, None), sd1) \<Rightarrow>
             let segments1 =
                   (if hasStart event
                    then segments @ [\<lparr>SpeechStartAt = startAt event, SpeechEndAt = 0\<rparr>]
                    else segments);
                 segments2 =
                   (if hasEnd event
                    then
                      (if length segments1 > 0
                          \<and> SpeechEndAt (segments1 ! (length segments1 - 1)) = 0
                          \<and> SpeechStartAt (segments1 ! (length segments1 - 1)) = endStartAt event
                       then segments1[length segments1 - 1 :=
                              (segments1 ! (length segments1 - 1))\<lparr>SpeechEndAt := endAt event\<rparr>]
                       else segments1 @ [\<lparr>SpeechStartAt = endStartAt event,
                                           SpeechEndAt = endAt event\<rparr>])
                    else segments1)
             in Detect_loop W minSilenceSamples speechPadSamples pcm (i + W) segments2 sd1)
      else ((segments, None), sd))"
  by pat_completeness auto
termination
  by (relation "measure (\<lambda>(W, ms, pad, pcm, i, segs, sd). Suc (length pcm) - i)") auto

declare Detect_loop.simps [simp del]

definition Detect :: "Detector \<Rightarrow> rat list \<Rightarrow> (Segment list \<times> error option) \<times> Detector" where
  "Detect sd0 pcm =
     (let sd1 = (if windowSize sd0 = 0
                 then sd0\<lparr>windowSize := windowSizeForSampleRate (SampleRate (cfg sd0))\<rparr>
                 else sd0)
      in if length pcm < windowSize sd1
         then (([], Some NotEnoughSamples), sd1)
         else
           Detect_loop (windowSize sd1)
             (go_quot (wrap64 (MinSilenceDurationMs (cfg sd1) * SampleRate (cfg sd1))) 1000)
             (go_quot (wrap64 (SpeechPadMs (cfg sd1) * SampleRate (cfg sd1))) 1000)
             pcm 0 [] sd1)"

text \<open>
  \<^verbatim>\<open>DetectStream\<close>. Both places that turn an event into segments run the same lines:
  a start appends an open segment, an end appends a closed one. When the carry-over
  buffer is longer than a window, \<^verbatim>\<open>pcm[:needed]\<close> has a negative bound and the Go
  runtime panics; the model returns that as the error \<open>SliceBoundsOutOfRange\<close>.
\<close>

definition appendEvent :: "Segment list \<Rightarrow> speechEvent \<Rightarrow> Segment list" where
  "appendEvent segments event =
     (let segments1 =
            (if hasStart event
             then segments @ [\<lparr>SpeechStartAt = startAt event, SpeechEndAt = 0\<rparr>]
             else segments)
      in if hasEnd event
         then segments1 @ [\<lparr>SpeechStartAt = endStartAt event, SpeechEndAt = endAt event\<rparr>]
         else segments1)"

function DetectStream_loop ::
  "nat \<Rightarrow> int \<Rightarrow> int \<Rightarrow> rat list \<Rightarrow> nat \<Rightarrow> Segment list \<Rightarrow> Detector
     \<Rightarrow> (Segment list \<times> error option) \<times> Detector" where
  "DetectStream_loop W minSilenceSamples speechPadSamples pcm index segments sd =
     (if 0 < W \<and> index + W \<le> length pcm
      then
        (case processWindow sd (take W (drop index pcm)) minSilenceSamples speechPadSamples of
           ((event, Some err), sd1) \<Rightarrow> (([], Some err), sd1)
         | ((event, None), sd1) \<Rightarrow>
             DetectStream_loop W minSilenceSamples speechPadSamples pcm (index + W)
               (appendEvent segments event) sd1)
      else
        ((segments, None),
         (if index < length pcm then sd\<lparr>streamBuf := streamBuf sd @ drop index pcm\<rparr> else sd)))"
  by pat_completeness auto
termination
  by (relation "measure (\<lambda>(W, ms, pad, pcm, i, segs, sd). Suc (length pcm) - i)") auto

declare DetectStream_loop.simps [simp del]

definition DetectStream ::
  "Detector \<Rightarrow> rat list \<Rightarrow> (Segment list \<times> error option) \<times> Detector" where
  "DetectStream sd0 pcm =
     (if length pcm = 0 then (([], None), sd0)
      else
        let sd1 = (if windowSize sd0 = 0
                   then sd0\<lparr>windowSize := windowSizeForSampleRate (SampleRate (cfg sd0))\<rparr>
                   else sd0);
            W = windowSize sd1;
            minSilenceSamples =
              go_quot (wrap64 (MinSilenceDurationMs (cfg sd1) * SampleRate (cfg sd1))) 1000;
            speechPadSamples =
              go_quot (wrap64 (SpeechPadMs (cfg sd1) * SampleRate (cfg sd1))) 1000
        in if length (streamBuf sd1) > 0
           then
             (let needed = int W - int (length (streamBuf sd1))
              in if int (length pcm) < needed
                 then (([], None), sd1\<lparr>streamBuf := streamBuf sd1 @ pcm\<rparr>)
                 else if needed < 0
                 then (([], Some SliceBoundsOutOfRange), sd1)
                 else
                   let sd2 = sd1\<lparr>streamBuf := streamBuf sd1 @ take (nat needed) pcm\<rparr>
                   in case processWindow sd2 (streamBuf sd2) minSilenceSamples speechPadSamples of
                        ((event, Some err), sd3) \<Rightarrow> (([], Some err), sd3)
                      | ((event, None), sd3) \<Rightarrow>
                          DetectStream_loop W minSilenceSamples speechPadSamples pcm (nat needed)
                            (appendEvent [] event) (sd3\<lparr>streamBuf := []\<rparr>))
           else DetectStream_loop W minSilenceSamples speechPadSamples pcm 0 [] sd1)"

text \<open>
  \<^verbatim>\<open>Reset\<close>. \<^verbatim>\<open>state\<close> is an array of \<^verbatim>\<open>stateLen\<close> floats, so clearing it gives that many
  zeros; \<^verbatim>\<open>inputBuf\<close> is a slice and keeps its length.
\<close>

definition Reset :: "Detector \<Rightarrow> error option \<times> Detector" where
  "Reset sd =
     (None,
      sd\<lparr>currSample := 0, triggered := False, tempEnd := 0,
         pendingStart := 0, pendingStartValid := False,
         streamBuf := [],
         state := replicate stateLen 0,
         inputBuf := map (\<lambda>_. 0) (inputBuf sd)\<rparr>)"

definition SetThreshold :: "Detector \<Rightarrow> rat \<Rightarrow> Detector" where
  "SetThreshold sd v = sd\<lparr>cfg := (cfg sd)\<lparr>Threshold := v\<rparr>\<rparr>"


section \<open>Definitions used to state the properties\<close>

text \<open>The detector that a successful \<^verbatim>\<open>NewDetector\<close> returns.\<close>

definition freshDetector :: "ort_session \<Rightarrow> DetectorConfig \<Rightarrow> Detector" where
  "freshDetector sess c =
     \<lparr> session = sess, cfg = c,
       state = replicate stateLen 0,
       windowSize = windowSizeForSampleRate (SampleRate c),
       inputBuf = replicate (contextLen + windowSizeForSampleRate (SampleRate c)) 0,
       rateValue = SampleRate c,
       pendingStart = 0, pendingStartValid = False,
       streamBuf = [],
       currSample = 0, triggered = False, tempEnd = 0 \<rparr>"

text \<open>
  A concrete configuration and a concrete session for the worked examples: 16 kHz,
  threshold 0.5, no minimum silence, no padding; the session reports the last sample of
  the window as the probability and leaves the recurrent state alone.
\<close>

definition demoCfg :: DetectorConfig where
  "demoCfg = \<lparr> ModelPath = ''silero_vad.onnx'', SampleRate = 16000, Threshold = 1 / 2,
               MinSilenceDurationMs = 0, SpeechPadMs = 0 \<rparr>"

definition demoModel :: "rat list \<Rightarrow> rat list \<Rightarrow> int \<Rightarrow> rat \<times> rat list" where
  "demoModel buf st rate = ((if buf = [] then 0 else last buf), st)"

definition demoSession :: ort_session where
  "demoSession buf st rate = Inr (demoModel buf st rate)"

definition demoPcm :: "rat list" where
  "demoPcm = replicate 512 (1 / 10) @ replicate 512 (1 / 10) @ replicate 512 (3 / 5)
             @ replicate 512 (3 / 5) @ replicate 512 (1 / 10) @ replicate 512 (1 / 10)"

text \<open>
  What construction establishes and every operation keeps: a supported sample rate, the
  window size of that rate, an input buffer of context plus window and the rate tensor.
  Two detectors are alike for the inference when they agree on what \<^verbatim>\<open>Infer\<close> reads,
  and alike for the trigger when they agree on what \<^verbatim>\<open>advanceSpeech\<close> reads.
\<close>

definition wellFormed :: "Detector \<Rightarrow> bool" where
  "wellFormed sd \<longleftrightarrow>
     (SampleRate (cfg sd) = 8000 \<or> SampleRate (cfg sd) = 16000)
     \<and> windowSize sd = windowSizeForSampleRate (SampleRate (cfg sd))
     \<and> length (inputBuf sd) = contextLen + windowSize sd
     \<and> rateValue sd = SampleRate (cfg sd)"

definition sameInfer :: "Detector \<Rightarrow> Detector \<Rightarrow> bool" where
  "sameInfer a b \<longleftrightarrow>
     session a = session b \<and> SampleRate (cfg a) = SampleRate (cfg b) \<and> state a = state b
     \<and> windowSize a = windowSize b \<and> inputBuf a = inputBuf b \<and> rateValue a = rateValue b"

definition sameTrigger :: "Detector \<Rightarrow> Detector \<Rightarrow> bool" where
  "sameTrigger a b \<longleftrightarrow>
     cfg a = cfg b \<and> windowSize a = windowSize b \<and> currSample a = currSample b
     \<and> triggered a = triggered b \<and> tempEnd a = tempEnd b
     \<and> pendingStart a = pendingStart b \<and> pendingStartValid a = pendingStartValid b"

text \<open>
  The complete windows of a sample sequence, in order, and the run of \<^verbatim>\<open>processWindow\<close>
  over a list of windows: the events of the windows processed, up to the first error.
  Both loops of the source are such runs.
\<close>

function windowsOf :: "nat \<Rightarrow> 'a list \<Rightarrow> 'a list list" where
  "windowsOf W xs = (if 0 < W \<and> W \<le> length xs then take W xs # windowsOf W (drop W xs) else [])"
  by pat_completeness auto
termination
  by (relation "measure (\<lambda>(W, xs). length xs)") auto

declare windowsOf.simps [simp del]

fun runWindows ::
  "Detector \<Rightarrow> rat list list \<Rightarrow> int \<Rightarrow> int \<Rightarrow> (speechEvent list \<times> error option) \<times> Detector" where
  "runWindows sd [] ms pad = (([], None), sd)"
| "runWindows sd (w # ws) ms pad =
     (case processWindow sd w ms pad of
        ((ev, Some err), sd1) \<Rightarrow> (([], Some err), sd1)
      | ((ev, None), sd1) \<Rightarrow>
          (case runWindows sd1 ws ms pad of ((evs, e), sd2) \<Rightarrow> ((ev # evs, e), sd2)))"

text \<open>
  The batch assembler as the specification words it: a start event appends an open
  segment; an end event closes the most recent segment if that one is open and has the
  event's start, and appends a closed segment otherwise.
\<close>

definition closeOrAppend :: "Segment list \<Rightarrow> rat \<Rightarrow> rat \<Rightarrow> Segment list" where
  "closeOrAppend segs s e =
     (if segs \<noteq> [] \<and> SpeechEndAt (last segs) = 0 \<and> SpeechStartAt (last segs) = s
      then butlast segs @ [\<lparr>SpeechStartAt = s, SpeechEndAt = e\<rparr>]
      else segs @ [\<lparr>SpeechStartAt = s, SpeechEndAt = e\<rparr>])"

definition assembleBatch :: "Segment list \<Rightarrow> speechEvent \<Rightarrow> Segment list" where
  "assembleBatch segs ev =
     (let opened = (if hasStart ev then segs @ [\<lparr>SpeechStartAt = startAt ev, SpeechEndAt = 0\<rparr>]
                    else segs)
      in if hasEnd ev then closeOrAppend opened (endStartAt ev) (endAt ev) else opened)"

text \<open>
  The results of successive \<^verbatim>\<open>Infer\<close> calls on a list of windows, and the trigger driven
  by a list of probabilities: what \<^verbatim>\<open>processWindow\<close> does after an inference that
  returned \<open>p\<close>, window after window.
\<close>

fun inferAll :: "Detector \<Rightarrow> rat list list \<Rightarrow> (rat \<times> error option) list" where
  "inferAll sd [] = []"
| "inferAll sd (w # ws) = (case Infer sd w of (r, sd1) \<Rightarrow> r # inferAll sd1 ws)"

fun triggerRun ::
  "Detector \<Rightarrow> rat list \<Rightarrow> int \<Rightarrow> int \<Rightarrow> (speechEvent list \<times> error option) \<times> Detector" where
  "triggerRun sd [] ms pad = (([], None), sd)"
| "triggerRun sd (p # ps) ms pad =
     (case advanceSpeech (sd\<lparr>currSample := currSample sd + int (windowSize sd)\<rparr>) p ms pad of
        ((ev, Some err), sd1) \<Rightarrow> (([], Some err), sd1)
      | ((ev, None), sd1) \<Rightarrow>
          (case triggerRun sd1 ps ms pad of ((evs, e), sd2) \<Rightarrow> ((ev # evs, e), sd2)))"

text \<open>
  A configuration with 64 ms of minimum silence (1024 samples at 16 kHz), and the state
  the trigger reaches from a fresh detector on the probabilities 0.6, 0.1, 0.4: triggered,
  with the release point of the second window still pending.
\<close>

definition debounceCfg :: DetectorConfig where
  "debounceCfg = demoCfg\<lparr>MinSilenceDurationMs := 64\<rparr>"

definition staleRelease :: Detector where
  "staleRelease =
     snd (triggerRun (freshDetector demoSession debounceCfg) [3 / 5, 1 / 10, 2 / 5] 1024 0)"

text \<open>
  The samples after the last complete window: what \<^verbatim>\<open>DetectStream\<close> keeps in
  \<^verbatim>\<open>streamBuf\<close> and \<^verbatim>\<open>Detect\<close> drops.
\<close>

function leftover :: "nat \<Rightarrow> 'a list \<Rightarrow> 'a list" where
  "leftover W xs = (if 0 < W \<and> W \<le> length xs then leftover W (drop W xs) else xs)"
  by pat_completeness auto
termination
  by (relation "measure (\<lambda>(W, xs). length xs)") auto

declare leftover.simps [simp del]

text \<open>
  The detectors a caller can hold: a constructed one, and the result of any public
  operation on one of them, whether it succeeded or returned an error.
\<close>

inductive reachable :: "Detector \<Rightarrow> bool" where
  constructed: "NewDetector ort c = (Some sd, e) \<Longrightarrow> reachable sd"
| afterDetect: "reachable sd \<Longrightarrow> reachable (snd (Detect sd pcm))"
| afterDetectStream: "reachable sd \<Longrightarrow> reachable (snd (DetectStream sd pcm))"
| afterInfer: "reachable sd \<Longrightarrow> reachable (snd (Infer sd samples))"
| afterReset: "reachable sd \<Longrightarrow> reachable (snd (Reset sd))"
| afterSetThreshold: "reachable sd \<Longrightarrow> reachable (SetThreshold sd v)"

text \<open>
  A sequence of \<^verbatim>\<open>Detect\<close> and \<^verbatim>\<open>DetectStream\<close> calls, run in order on one detector;
  the results of all calls are collected, errors included.
\<close>

datatype call = CallDetect "rat list" | CallDetectStream "rat list"

fun exec :: "call \<Rightarrow> Detector \<Rightarrow> (Segment list \<times> error option) \<times> Detector" where
  "exec (CallDetect pcm) sd = Detect sd pcm"
| "exec (CallDetectStream pcm) sd = DetectStream sd pcm"

fun replay :: "Detector \<Rightarrow> call list \<Rightarrow> (Segment list \<times> error option) list \<times> Detector" where
  "replay sd [] = ([], sd)"
| "replay sd (c # cs) =
     (case exec c sd of (r, sd1) \<Rightarrow> (case replay sd1 cs of (rs, sd2) \<Rightarrow> (r # rs, sd2)))"

text \<open>A detector in the middle of speech: the fresh one after one window at 0.6.\<close>

definition speakingDetector :: Detector where
  "speakingDetector = snd (Detect (freshDetector demoSession demoCfg) (replicate 512 (3 / 5)))"

text \<open>
  The context is the first \<^verbatim>\<open>contextLen\<close> floats of \<^verbatim>\<open>inputBuf\<close>. After a list of
  windows has been inferred it should be the last \<^verbatim>\<open>contextLen\<close> samples of the last of
  them, and the old context when the list is empty.
\<close>

definition contextOf :: "Detector \<Rightarrow> rat list" where
  "contextOf sd = take contextLen (inputBuf sd)"

definition contextAfter :: "rat list \<Rightarrow> rat list list \<Rightarrow> rat list" where
  "contextAfter ctx ws =
     (if ws = [] then ctx else drop (length (last ws) - contextLen) (last ws))"

text \<open>
  Reconstruction of intervals from streaming output, as the specification words it: an
  open segment (\<open>SpeechEndAt = 0\<close>) is paired with the first later closed segment that
  carries the same \<open>SpeechStartAt\<close>, which takes its place; an open segment with no such
  partner stays open, as the batch list leaves a segment that has not ended; a closed
  segment that no open one claims stands by itself.
\<close>

function reconstruct :: "Segment list \<Rightarrow> Segment list" where
  "reconstruct [] = []"
| "reconstruct (seg # rest) =
     (if SpeechEndAt seg = 0
      then (case find (\<lambda>c. SpeechEndAt c \<noteq> 0 \<and> SpeechStartAt c = SpeechStartAt seg) rest of
              Some c \<Rightarrow> c # reconstruct (remove1 c rest)
            | None \<Rightarrow> seg # reconstruct rest)
      else seg # reconstruct rest)"
  by pat_completeness auto
termination
  by (relation "measure length") (auto simp: length_remove1 less_Suc_eq_le)

text \<open>
  The shape of an event stream, given the start that is pending before it: a start event
  comes only when none is pending, an end event carries the pending start and a nonzero
  end, and no event is both.
\<close>

fun eventsFrom :: "rat option \<Rightarrow> speechEvent list \<Rightarrow> bool" where
  "eventsFrom pend [] = True"
| "eventsFrom pend (ev # evs) =
     (if hasStart ev
      then \<not> hasEnd ev \<and> pend = None \<and> eventsFrom (Some (startAt ev)) evs
      else if hasEnd ev
      then pend = Some (endStartAt ev) \<and> endAt ev \<noteq> 0 \<and> eventsFrom None evs
      else eventsFrom pend evs)"

text \<open>
  The trigger state between windows on a well-formed detector: \<open>triggered\<close> exactly
  when a start is pending, counters that are not negative, a configured padding (in
  milliseconds) that is not negative.
  \<open>pendingOf\<close> is the pending start, if any.
\<close>

definition triggerOk :: "Detector \<Rightarrow> bool" where
  "triggerOk sd \<longleftrightarrow>
     wellFormed sd \<and> triggered sd = pendingStartValid sd
     \<and> 0 \<le> currSample sd \<and> 0 \<le> tempEnd sd \<and> 0 \<le> SpeechPadMs (cfg sd)"

definition pendingOf :: "Detector \<Rightarrow> rat option" where
  "pendingOf sd = (if pendingStartValid sd then Some (pendingStart sd) else None)"

text \<open>A chunking of the worked example that does not fall on window boundaries.\<close>

definition demoChunks :: "rat list list" where
  "demoChunks = [take 100 demoPcm, take 700 (drop 100 demoPcm), [], drop 700 (drop 100 demoPcm)]"

text \<open>
  A configuration that \<^verbatim>\<open>IsValid\<close> accepts and whose padding overflows: at 16 kHz,
  \<open>(2 ^ 57 - 64) * 16000\<close> wraps to \<open>- 1024000\<close>, so \<^verbatim>\<open>speechPadSamples\<close> is
  \<open>- 1024\<close>. The input is one window at 0.6 and one at 0.1.
\<close>

definition overflowCfg :: DetectorConfig where
  "overflowCfg = demoCfg\<lparr>SpeechPadMs := 2 ^ 57 - 64\<rparr>"

definition overflowPcm :: "rat list" where
  "overflowPcm = replicate 512 (3 / 5) @ replicate 512 (1 / 10)"

section \<open>Construction\<close>

lemma NewDetector_Some:
  "NewDetector ort c = (Some sd, e) \<longleftrightarrow>
     (IsValid c = None \<and> e = None \<and> (\<exists>sess. ort (ModelPath c) = Inr sess \<and> sd = freshDetector sess c))"
  by (auto simp: NewDetector_def freshDetector_def split: option.splits sum.splits)

lemma IsValid_None:
  "IsValid c = None \<longleftrightarrow>
     (ModelPath c \<noteq> [] \<and> (SampleRate c = 8000 \<or> SampleRate c = 16000)
      \<and> 0 < Threshold c \<and> Threshold c < 1 \<and> 0 \<le> MinSilenceDurationMs c \<and> 0 \<le> SpeechPadMs c)"
  by (auto simp: IsValid_def)

lemma demoCfg_valid: "IsValid demoCfg = None"
  by (simp add: IsValid_None demoCfg_def)

section \<open>Rejected input lengths\<close>

lemma Infer_length_mismatch:
  assumes "W = (if windowSize sd = 0 then windowSizeForSampleRate (SampleRate (cfg sd))
                else windowSize sd)"
      and "length samples \<noteq> W"
  shows "Infer sd samples =
           ((0, Some (InvalidSamplesLength W (length samples))), sd\<lparr>windowSize := W\<rparr>)"
proof (cases "windowSize sd = 0")
  case True
  with assms show ?thesis by (simp add: Infer_def Let_def)
next
  case False
  with assms show ?thesis by (simp add: Infer_def Let_def)
qed

text \<open>
  C9. \<^verbatim>\<open>Infer\<close> on a slice whose length is not the window size (shorter or longer)
  returns probability 0 with the length error. The session is not consulted, and the
  detector is returned as it was, the recurrent state and the input buffer included; only
  a zero window size is replaced by the one of the sample rate first.
\<close>

theorem Infer_wrong_length:
  assumes "W = (if windowSize sd = 0 then windowSizeForSampleRate (SampleRate (cfg sd))
                else windowSize sd)"
      and "length samples \<noteq> W"
  shows "Infer sd samples =
           ((0, Some (InvalidSamplesLength W (length samples))), sd\<lparr>windowSize := W\<rparr>)"
  using assms by (rule Infer_length_mismatch)

theorem Infer_wrong_length_witness:
  "Infer (freshDetector demoSession demoCfg) (replicate 513 0) =
     ((0, Some (InvalidSamplesLength 512 513)), freshDetector demoSession demoCfg)"
  using Infer_wrong_length [of 512 "freshDetector demoSession demoCfg" "replicate 513 0"]
  by (simp add: freshDetector_def demoCfg_def windowSizeForSampleRate_def)

text \<open>
  C8. \<^verbatim>\<open>Detect\<close> on fewer samples than one window (256 at 8000 Hz, 512 otherwise)
  returns the empty segment list with the not-enough-samples error and leaves the
  detector untouched: no window is inferred and no event is produced.
\<close>

theorem Detect_not_enough_samples:
  assumes "windowSize sd = windowSizeForSampleRate (SampleRate (cfg sd))"
      and "length pcm < (if SampleRate (cfg sd) = 8000 then 256 else 512)"
  shows "Detect sd pcm = (([], Some NotEnoughSamples), sd)"
  using assms by (simp add: Detect_def Let_def windowSizeForSampleRate_def split: if_splits)

theorem Detect_not_enough_samples_witness:
  "Detect (freshDetector demoSession demoCfg) (replicate 511 (3 / 5)) =
     (([], Some NotEnoughSamples), freshDetector demoSession demoCfg)"
  using Detect_not_enough_samples [of "freshDetector demoSession demoCfg" "replicate 511 (3 / 5)"]
  by (simp add: freshDetector_def demoCfg_def windowSizeForSampleRate_def)

section \<open>The hysteresis trigger\<close>

text \<open>
  C3. When the probability reaches the threshold and the detector is not triggered,
  \<^verbatim>\<open>advanceSpeech\<close> emits exactly a start event (and no end event, no error). Its
  timestamp is \<open>max 0 ((currSample - windowSize - speechPadSamples) / SampleRate)\<close>, with
  \<open>currSample\<close> already advanced by \<^verbatim>\<open>processWindow\<close>; the same value is stored in
  \<open>pendingStart\<close>, \<open>pendingStartValid\<close> and \<open>triggered\<close> become true, and a pending
  release point is dropped.
\<close>

theorem advanceSpeech_start:
  assumes "speechProb \<ge> Threshold (cfg sd)"
      and "\<not> triggered sd"
      and "t = max 0 (of_int (currSample sd - int (windowSize sd) - speechPadSamples)
                        / of_int (SampleRate (cfg sd)))"
  shows "advanceSpeech sd speechProb minSilenceSamples speechPadSamples =
           ((\<lparr> hasStart = True, startAt = t, hasEnd = False, endAt = 0, endStartAt = 0 \<rparr>, None),
            sd\<lparr>tempEnd := 0, triggered := True, pendingStart := t, pendingStartValid := True\<rparr>)"
proof -
  have nodip: "\<not> speechProb < Threshold (cfg sd) - 15 / 100"
    using assms(1) by simp
  show ?thesis
  proof (cases "tempEnd sd = 0")
    case True
    with assms nodip show ?thesis
      by (simp add: advanceSpeech_def Let_def noEvent_def max_def)
  next
    case False
    with assms nodip show ?thesis
      by (simp add: advanceSpeech_def Let_def noEvent_def max_def)
  qed
qed

theorem advanceSpeech_start_witness:
  "advanceSpeech ((freshDetector demoSession demoCfg)\<lparr>currSample := 1536\<rparr>) (3 / 5) 0 0 =
     ((\<lparr> hasStart = True, startAt = 8 / 125, hasEnd = False, endAt = 0, endStartAt = 0 \<rparr>, None),
      (freshDetector demoSession demoCfg)
        \<lparr>currSample := 1536, tempEnd := 0, triggered := True, pendingStart := 8 / 125,
         pendingStartValid := True\<rparr>)"
  using advanceSpeech_start
    [of "(freshDetector demoSession demoCfg)\<lparr>currSample := 1536\<rparr>" "3 / 5" "8 / 125" 0 0]
  by (simp add: freshDetector_def demoCfg_def windowSizeForSampleRate_def)

section \<open>Windows and the batch loop\<close>

lemma windowsOf_step:
  "0 < W \<Longrightarrow> W \<le> length xs \<Longrightarrow> windowsOf W xs = take W xs # windowsOf W (drop W xs)"
  by (subst windowsOf.simps) simp

lemma windowsOf_short: "length xs < W \<Longrightarrow> windowsOf W xs = []"
  by (subst windowsOf.simps) simp

lemma windowsOf_append_window:
  "0 < W \<Longrightarrow> length w = W \<Longrightarrow> windowsOf W (w @ rest) = w # windowsOf W rest"
  by (subst windowsOf.simps) simp

lemma windowsOf_drop_step:
  assumes "0 < W" and "i + W \<le> length pcm"
  shows "windowsOf W (drop i pcm) = take W (drop i pcm) # windowsOf W (drop (i + W) pcm)"
proof -
  from assms have "W \<le> length (drop i pcm)" by simp
  with assms(1) have "windowsOf W (drop i pcm)
      = take W (drop i pcm) # windowsOf W (drop W (drop i pcm))"
    by (rule windowsOf_step)
  then show ?thesis by (simp add: add.commute)
qed

lemma windowsOf_drop_stop:
  assumes "\<not> (0 < W \<and> i + W \<le> length pcm)"
  shows "windowsOf W (drop i pcm) = []"
  using assms by (subst windowsOf.simps) auto

lemma windowsOf_length: "w \<in> set (windowsOf W xs) \<Longrightarrow> length w = W"
proof (induction W xs rule: windowsOf.induct)
  case (1 W xs)
  show ?case
  proof (cases "0 < W \<and> W \<le> length xs")
    case True
    with "1.prems" have "w = take W xs \<or> w \<in> set (windowsOf W (drop W xs))"
      by (simp add: windowsOf_step)
    with True "1.IH" show ?thesis by auto
  next
    case False
    with "1.prems" show ?thesis by (subst (asm) windowsOf.simps) simp
  qed
qed

text \<open>The in-place update of the last segment is the closing step of the rule.\<close>

lemma nth_length_minus_1: "xs \<noteq> [] \<Longrightarrow> xs ! (length xs - 1) = last xs"
  by (simp add: last_conv_nth)

lemma close_last_eq:
  assumes "segs \<noteq> []" and "SpeechStartAt (last segs) = s"
  shows "segs[length segs - 1 := (last segs)\<lparr>SpeechEndAt := e\<rparr>]
           = butlast segs @ [\<lparr>SpeechStartAt = s, SpeechEndAt = e\<rparr>]"
proof -
  from assms(1) obtain ys y where segs: "segs = ys @ [y]"
    by (cases segs rule: rev_cases) auto
  with assms(2) show ?thesis by simp
qed

lemma inline_end_eq:
  "(if length segs > 0
       \<and> SpeechEndAt (segs ! (length segs - 1)) = 0
       \<and> SpeechStartAt (segs ! (length segs - 1)) = s
    then segs[length segs - 1 := (segs ! (length segs - 1))\<lparr>SpeechEndAt := e\<rparr>]
    else segs @ [\<lparr>SpeechStartAt = s, SpeechEndAt = e\<rparr>])
   = closeOrAppend segs s e"
proof (cases "segs = []")
  case True
  then show ?thesis by (simp add: closeOrAppend_def)
next
  case False
  then have nth: "segs ! (length segs - 1) = last segs"
    by (rule nth_length_minus_1)
  show ?thesis
    unfolding nth closeOrAppend_def using False close_last_eq [OF False, of s e]
    by (simp del: One_nat_def)
qed

lemma loop_body_assemble:
  "(let segments1 =
         (if hasStart event
          then segments @ [\<lparr>SpeechStartAt = startAt event, SpeechEndAt = 0\<rparr>]
          else segments);
       segments2 =
         (if hasEnd event
          then
            (if length segments1 > 0
                \<and> SpeechEndAt (segments1 ! (length segments1 - 1)) = 0
                \<and> SpeechStartAt (segments1 ! (length segments1 - 1)) = endStartAt event
             then segments1[length segments1 - 1 :=
                    (segments1 ! (length segments1 - 1))\<lparr>SpeechEndAt := endAt event\<rparr>]
             else segments1 @ [\<lparr>SpeechStartAt = endStartAt event,
                                 SpeechEndAt = endAt event\<rparr>])
          else segments1)
   in f segments2) = f (assembleBatch segments event)"
  unfolding Let_def inline_end_eq assembleBatch_def by simp

lemma Detect_loop_unfold:
  "Detect_loop W ms pad pcm i segs sd =
     (if 0 < W \<and> i + W \<le> length pcm
      then (case processWindow sd (take W (drop i pcm)) ms pad of
              ((ev, Some err), sd1) \<Rightarrow> (([], Some err), sd1)
            | ((ev, None), sd1) \<Rightarrow> Detect_loop W ms pad pcm (i + W) (assembleBatch segs ev) sd1)
      else ((segs, None), sd))"
  by (subst Detect_loop.simps) (simp only: loop_body_assemble)

lemma Detect_loop_stop:
  "\<not> (0 < W \<and> i + W \<le> length pcm) \<Longrightarrow> Detect_loop W ms pad pcm i segs sd = ((segs, None), sd)"
  by (subst Detect_loop_unfold) (simp only: if_False)

lemma Detect_loop_step:
  "0 < W \<Longrightarrow> i + W \<le> length pcm \<Longrightarrow>
   Detect_loop W ms pad pcm i segs sd =
     (case processWindow sd (take W (drop i pcm)) ms pad of
        ((ev, Some err), sd1) \<Rightarrow> (([], Some err), sd1)
      | ((ev, None), sd1) \<Rightarrow> Detect_loop W ms pad pcm (i + W) (assembleBatch segs ev) sd1)"
  by (subst Detect_loop_unfold) simp

lemma Detect_loop_runWindows:
  "Detect_loop W ms pad pcm i segs sd =
     (case runWindows sd (windowsOf W (drop i pcm)) ms pad of
        ((evs, Some err), sd') \<Rightarrow> (([], Some err), sd')
      | ((evs, None), sd') \<Rightarrow> ((foldl assembleBatch segs evs, None), sd'))"
proof (induction "length pcm - i" arbitrary: i segs sd rule: less_induct)
  case less
  show ?case
  proof (cases "0 < W \<and> i + W \<le> length pcm")
    case False
    then show ?thesis
      by (simp add: Detect_loop_stop windowsOf_drop_stop)
  next
    case True
    then have W: "0 < W" and le: "i + W \<le> length pcm" by auto
    obtain ev e sd1 where pw: "processWindow sd (take W (drop i pcm)) ms pad = ((ev, e), sd1)"
      by (metis surj_pair)
    show ?thesis
    proof (cases e)
      case (Some err)
      with pw show ?thesis
        by (simp add: Detect_loop_step [OF W le] windowsOf_drop_step [OF W le])
    next
      case None
      have "length pcm - (i + W) < length pcm - i"
        using W le by simp
      note IH = less [OF this, of "assembleBatch segs ev" sd1]
      from pw None show ?thesis
        by (simp add: Detect_loop_step [OF W le] windowsOf_drop_step [OF W le] IH
                 split: prod.splits option.splits)
    qed
  qed
qed

lemma Detect_runWindows:
  assumes "windowSize sd \<noteq> 0" and "windowSize sd \<le> length pcm"
  shows "Detect sd pcm =
     (case runWindows sd (windowsOf (windowSize sd) pcm)
             (go_quot (wrap64 (MinSilenceDurationMs (cfg sd) * SampleRate (cfg sd))) 1000)
             (go_quot (wrap64 (SpeechPadMs (cfg sd) * SampleRate (cfg sd))) 1000) of
        ((evs, Some err), sd') \<Rightarrow> (([], Some err), sd')
      | ((evs, None), sd') \<Rightarrow> ((foldl assembleBatch [] evs, None), sd'))"
  using assms by (simp add: Detect_def Let_def Detect_loop_runWindows)

section \<open>Inference on a well-formed detector\<close>

lemma wellFormed_windowSize: "wellFormed sd \<Longrightarrow> windowSize sd = 256 \<or> windowSize sd = 512"
  by (auto simp: wellFormed_def windowSizeForSampleRate_def)

lemma wellFormed_fresh:
  "SampleRate c = 8000 \<or> SampleRate c = 16000 \<Longrightarrow> wellFormed (freshDetector sess c)"
  by (auto simp: wellFormed_def freshDetector_def windowSizeForSampleRate_def)

lemma Infer_wellFormed:
  assumes wf: "wellFormed sd" and len: "length w = windowSize sd"
  shows "Infer sd w =
     (case session sd (take contextLen (inputBuf sd) @ w) (state sd) (rateValue sd) of
        Inl msg \<Rightarrow> ((0, Some (OrtFailure msg)), sd\<lparr>inputBuf := take contextLen (inputBuf sd) @ w\<rparr>)
      | Inr (p, stateN) \<Rightarrow>
          ((p, None), sd\<lparr>state := take stateLen stateN,
                          inputBuf := drop (windowSize sd - contextLen) w @ w\<rparr>))"
proof -
  from wf have W: "windowSize sd = 256 \<or> windowSize sd = 512"
    by (rule wellFormed_windowSize)
  then have W0: "windowSize sd \<noteq> 0" and W64: "contextLen \<le> windowSize sd"
    by (auto simp: contextLen_def)
  from wf have buf: "length (inputBuf sd) = contextLen + windowSize sd"
    and rate: "rateValue sd \<noteq> 0"
    by (auto simp: wellFormed_def)
  have c1: "copy_slice (drop contextLen (inputBuf sd)) w = w"
    using buf len by (simp add: copy_slice_def)
  have c2: "copy_slice (take contextLen (inputBuf sd))
              (drop (windowSize sd) (take contextLen (inputBuf sd))
                 @ drop (windowSize sd - contextLen) w)
            = drop (windowSize sd - contextLen) w"
    using buf len W64 by (simp add: copy_slice_def min_def)
  have c3: "drop contextLen (take contextLen (inputBuf sd) @ w) = w"
    using buf by simp
  show ?thesis
    unfolding Infer_def Let_def
    using W0 len buf rate
    by (simp add: c1 c2 c3 split: sum.splits prod.splits)
qed

section \<open>The trigger sees the inference only through the probability\<close>

lemma sameTrigger_refl: "sameTrigger a a"
  by (simp add: sameTrigger_def)

lemma advanceSpeech_unfold:
  "advanceSpeech sd p ms pad =
     (let te = (if p \<ge> Threshold (cfg sd) then 0 else tempEnd sd);
          t = max 0 (of_int (currSample sd - int (windowSize sd) - pad)
                       / of_int (SampleRate (cfg sd)))
      in if p \<ge> Threshold (cfg sd)
         then (if triggered sd
               then ((noEvent, None), sd\<lparr>tempEnd := 0\<rparr>)
               else ((noEvent\<lparr>hasStart := True, startAt := t\<rparr>, None),
                     sd\<lparr>tempEnd := 0, triggered := True, pendingStart := t,
                        pendingStartValid := True\<rparr>))
         else if p < Threshold (cfg sd) - 15 / 100 \<and> triggered sd
         then
           (let rel = (if tempEnd sd = 0 then currSample sd else tempEnd sd)
            in if currSample sd - rel < ms
               then ((noEvent, None), sd\<lparr>tempEnd := rel\<rparr>)
               else if \<not> pendingStartValid sd
               then ((noEvent, Some UnexpectedSpeechEnd), sd\<lparr>tempEnd := 0, triggered := False\<rparr>)
               else ((noEvent\<lparr>hasEnd := True,
                               endAt := of_int (rel + pad) / of_int (SampleRate (cfg sd)),
                               endStartAt := pendingStart sd\<rparr>, None),
                     sd\<lparr>tempEnd := 0, triggered := False, pendingStartValid := False\<rparr>))
         else ((noEvent, None), sd))"
proof (cases "p \<ge> Threshold (cfg sd)")
  case True
  then have nodip: "\<not> p < Threshold (cfg sd) - 15 / 100" by simp
  show ?thesis
  proof (cases "tempEnd sd = 0")
    case t0: True
    with True nodip show ?thesis
      by (simp add: advanceSpeech_def Let_def max_def)
  next
    case t0: False
    with True nodip show ?thesis
      by (simp add: advanceSpeech_def Let_def max_def)
  qed
next
  case False
  show ?thesis
  proof (cases "tempEnd sd = 0")
    case t0: True
    with False show ?thesis
      by (simp add: advanceSpeech_def Let_def)
  next
    case t0: False
    with False show ?thesis
      by (simp add: advanceSpeech_def Let_def)
  qed
qed

lemma Infer_unfold:
  "Infer sd w =
     (let W = (if windowSize sd = 0 then windowSizeForSampleRate (SampleRate (cfg sd))
               else windowSize sd)
      in if length w \<noteq> W
         then ((0, Some (InvalidSamplesLength W (length w))), sd\<lparr>windowSize := W\<rparr>)
         else
           let buf0 = (if length (inputBuf sd) \<noteq> contextLen + W
                       then replicate (contextLen + W) 0 else inputBuf sd);
               rv = (if rateValue sd = 0 then SampleRate (cfg sd) else rateValue sd);
               buf1 = take contextLen buf0 @ copy_slice (drop contextLen buf0) w
           in case session sd buf1 (state sd) rv of
                Inl msg \<Rightarrow>
                  ((0, Some (OrtFailure msg)),
                   sd\<lparr>windowSize := W, inputBuf := buf1, rateValue := rv\<rparr>)
              | Inr (prob, stateN) \<Rightarrow>
                  ((prob, None),
                   sd\<lparr>windowSize := W, rateValue := rv, state := take stateLen stateN,
                      inputBuf := copy_slice (take contextLen buf1) (drop W buf1)
                                  @ drop contextLen buf1\<rparr>))"
proof (cases "windowSize sd = 0")
  case True
  show ?thesis
  proof (cases "rateValue sd = 0")
    case r: True
    show ?thesis
      unfolding Infer_def Let_def using True r
      by (simp split: sum.splits prod.splits)
  next
    case r: False
    show ?thesis
      unfolding Infer_def Let_def using True r
      by (simp split: sum.splits prod.splits)
  qed
next
  case False
  show ?thesis
  proof (cases "rateValue sd = 0")
    case r: True
    show ?thesis
      unfolding Infer_def Let_def using False r
      by (simp split: sum.splits prod.splits)
  next
    case r: False
    show ?thesis
      unfolding Infer_def Let_def using False r
      by (simp split: sum.splits prod.splits)
  qed
qed

lemma Infer_eq:
  assumes "W = (if windowSize sd = 0 then windowSizeForSampleRate (SampleRate (cfg sd))
                else windowSize sd)"
      and "buf0 = (if length (inputBuf sd) \<noteq> contextLen + W
                   then replicate (contextLen + W) 0 else inputBuf sd)"
      and "rv = (if rateValue sd = 0 then SampleRate (cfg sd) else rateValue sd)"
      and "buf1 = take contextLen buf0 @ copy_slice (drop contextLen buf0) w"
  shows "Infer sd w =
      (if length w \<noteq> W
       then ((0, Some (InvalidSamplesLength W (length w))), sd\<lparr>windowSize := W\<rparr>)
       else case session sd buf1 (state sd) rv of
              Inl msg \<Rightarrow>
                ((0, Some (OrtFailure msg)),
                 sd\<lparr>windowSize := W, inputBuf := buf1, rateValue := rv\<rparr>)
            | Inr (prob, stateN) \<Rightarrow>
                ((prob, None),
                 sd\<lparr>windowSize := W, rateValue := rv, state := take stateLen stateN,
                    inputBuf := copy_slice (take contextLen buf1) (drop W buf1)
                                @ drop contextLen buf1\<rparr>))"
  unfolding assms by (subst Infer_unfold) (simp only: Let_def)

lemma Infer_cases:
  obtains
    W where "W = (if windowSize sd = 0 then windowSizeForSampleRate (SampleRate (cfg sd))
                  else windowSize sd)"
      and "Infer sd w = ((0, Some (InvalidSamplesLength W (length w))), sd\<lparr>windowSize := W\<rparr>)"
  | W buf rv msg where
      "W = (if windowSize sd = 0 then windowSizeForSampleRate (SampleRate (cfg sd))
            else windowSize sd)"
      and "Infer sd w = ((0, Some (OrtFailure msg)),
                         sd\<lparr>windowSize := W, inputBuf := buf, rateValue := rv\<rparr>)"
  | W buf rv st p where
      "W = (if windowSize sd = 0 then windowSizeForSampleRate (SampleRate (cfg sd))
            else windowSize sd)"
      and "Infer sd w = ((p, None),
                         sd\<lparr>windowSize := W, rateValue := rv, state := st, inputBuf := buf\<rparr>)"
proof -
  define W where "W = (if windowSize sd = 0 then windowSizeForSampleRate (SampleRate (cfg sd))
                       else windowSize sd)"
  define buf0 where "buf0 = (if length (inputBuf sd) \<noteq> contextLen + W
                             then replicate (contextLen + W) 0 else inputBuf sd)"
  define rv where "rv = (if rateValue sd = 0 then SampleRate (cfg sd) else rateValue sd)"
  define buf1 where "buf1 = take contextLen buf0 @ copy_slice (drop contextLen buf0) w"
  note U = Infer_eq [OF W_def buf0_def rv_def buf1_def]
  show thesis
  proof (cases "length w \<noteq> W")
    case True
    with U have "Infer sd w = ((0, Some (InvalidSamplesLength W (length w))), sd\<lparr>windowSize := W\<rparr>)"
      by simp
    with W_def show thesis by (rule that(1))
  next
    case False
    show thesis
    proof (cases "session sd buf1 (state sd) rv")
      case (Inl msg)
      with U False have "Infer sd w = ((0, Some (OrtFailure msg)),
                 sd\<lparr>windowSize := W, inputBuf := buf1, rateValue := rv\<rparr>)"
        by simp
      with W_def show thesis by (rule that(2))
    next
      case (Inr r)
      obtain prob stateN where r: "r = (prob, stateN)" by (cases r)
      from U False Inr r have "Infer sd w = ((prob, None),
                 sd\<lparr>windowSize := W, rateValue := rv, state := take stateLen stateN,
                    inputBuf := copy_slice (take contextLen buf1) (drop W buf1)
                                @ drop contextLen buf1\<rparr>)"
        by simp
      with W_def show thesis by (rule that(3))
    qed
  qed
qed

text \<open>\<^verbatim>\<open>Infer\<close> leaves the trigger fields, the configuration and the carry-over buffer alone.\<close>

lemma Infer_frame:
  "cfg (snd (Infer sd w)) = cfg sd \<and> currSample (snd (Infer sd w)) = currSample sd
   \<and> triggered (snd (Infer sd w)) = triggered sd \<and> tempEnd (snd (Infer sd w)) = tempEnd sd
   \<and> pendingStart (snd (Infer sd w)) = pendingStart sd
   \<and> pendingStartValid (snd (Infer sd w)) = pendingStartValid sd
   \<and> streamBuf (snd (Infer sd w)) = streamBuf sd
   \<and> session (snd (Infer sd w)) = session sd"
  by (rule Infer_cases [of sd w]) simp_all

lemma Infer_windowSize: "windowSize a \<noteq> 0 \<Longrightarrow> windowSize (snd (Infer a w)) = windowSize a"
  by (rule Infer_cases [of a w]) simp_all

lemma sameTrigger_Infer: "windowSize a \<noteq> 0 \<Longrightarrow> sameTrigger (snd (Infer a w)) a"
  using Infer_frame [of a w] Infer_windowSize [of a w] by (simp add: sameTrigger_def)

text \<open>\<^verbatim>\<open>advanceSpeech\<close> changes the trigger fields only.\<close>

lemma advanceSpeech_frame:
  "session (snd (advanceSpeech a p ms pad)) = session a
   \<and> cfg (snd (advanceSpeech a p ms pad)) = cfg a
   \<and> state (snd (advanceSpeech a p ms pad)) = state a
   \<and> windowSize (snd (advanceSpeech a p ms pad)) = windowSize a
   \<and> inputBuf (snd (advanceSpeech a p ms pad)) = inputBuf a
   \<and> rateValue (snd (advanceSpeech a p ms pad)) = rateValue a
   \<and> streamBuf (snd (advanceSpeech a p ms pad)) = streamBuf a
   \<and> currSample (snd (advanceSpeech a p ms pad)) = currSample a"
  unfolding advanceSpeech_unfold Let_def by simp

lemma advanceSpeech_windowSize: "windowSize (snd (advanceSpeech a p ms pad)) = windowSize a"
  using advanceSpeech_frame [of a p ms pad] by simp

lemma sameTrigger_advance:
  assumes "sameTrigger a b"
  shows "fst (advanceSpeech a p ms pad) = fst (advanceSpeech b p ms pad)
         \<and> sameTrigger (snd (advanceSpeech a p ms pad)) (snd (advanceSpeech b p ms pad))"
proof -
  from assms have eq: "cfg a = cfg b" "windowSize a = windowSize b" "currSample a = currSample b"
    "triggered a = triggered b" "tempEnd a = tempEnd b" "pendingStart a = pendingStart b"
    "pendingStartValid a = pendingStartValid b"
    by (simp_all add: sameTrigger_def)
  show ?thesis
    unfolding advanceSpeech_unfold [of a] advanceSpeech_unfold [of b] eq Let_def
    by (simp add: sameTrigger_def eq)
qed

lemma sameTrigger_currSample:
  "sameTrigger a b \<Longrightarrow>
   sameTrigger (a\<lparr>currSample := currSample a + int (windowSize a)\<rparr>)
               (b\<lparr>currSample := currSample b + int (windowSize b)\<rparr>)"
  by (simp add: sameTrigger_def)

lemma sameInfer_Infer:
  assumes "sameInfer a b"
  shows "fst (Infer a w) = fst (Infer b w) \<and> sameInfer (snd (Infer a w)) (snd (Infer b w))"
proof -
  from assms have eq: "session a = session b" "SampleRate (cfg a) = SampleRate (cfg b)"
    "state a = state b" "windowSize a = windowSize b" "inputBuf a = inputBuf b"
    "rateValue a = rateValue b"
    by (simp_all add: sameInfer_def)
  define W where "W = (if windowSize a = 0 then windowSizeForSampleRate (SampleRate (cfg a))
                       else windowSize a)"
  define buf0 where "buf0 = (if length (inputBuf a) \<noteq> contextLen + W
                             then replicate (contextLen + W) 0 else inputBuf a)"
  define rv where "rv = (if rateValue a = 0 then SampleRate (cfg a) else rateValue a)"
  define buf1 where "buf1 = take contextLen buf0 @ copy_slice (drop contextLen buf0) w"
  note Ua = Infer_eq [OF W_def buf0_def rv_def buf1_def]
  note Ub = Infer_eq [OF W_def [unfolded eq] buf0_def [unfolded eq] rv_def [unfolded eq] buf1_def]
  show ?thesis
    unfolding Ua Ub by (simp add: sameInfer_def eq split: sum.splits)
qed

lemma sameInfer_advance: "sameInfer (snd (advanceSpeech a p ms pad)) a"
  using advanceSpeech_frame [of a p ms pad] by (simp add: sameInfer_def)

lemma sameInfer_currSample: "sameInfer (a\<lparr>currSample := x\<rparr>) a"
  by (simp add: sameInfer_def)

lemma sameInfer_trans: "sameInfer a b \<Longrightarrow> sameInfer b c \<Longrightarrow> sameInfer a c"
  by (simp add: sameInfer_def)

lemma sameInfer_inferAll: "sameInfer a b \<Longrightarrow> inferAll a ws = inferAll b ws"
proof (induction ws arbitrary: a b)
  case Nil
  then show ?case by simp
next
  case (Cons w ws)
  from sameInfer_Infer [OF Cons.prems, of w]
  have "fst (Infer a w) = fst (Infer b w)"
    and "inferAll (snd (Infer a w)) ws = inferAll (snd (Infer b w)) ws"
    using Cons.IH by auto
  then show ?case by (simp add: case_prod_beta)
qed

lemma runWindows_triggerRun:
  assumes "sameTrigger a b" and "windowSize a \<noteq> 0"
      and "inferAll a ws = map (\<lambda>p. (p, None)) ps"
  shows "fst (runWindows a ws ms pad) = fst (triggerRun b ps ms pad)
         \<and> sameTrigger (snd (runWindows a ws ms pad)) (snd (triggerRun b ps ms pad))"
  using assms
proof (induction ws arbitrary: a b ps)
  case Nil
  then show ?case by simp
next
  case (Cons w ws)
  obtain r a1 where inf: "Infer a w = (r, a1)"
    by (metis surj_pair)
  with Cons.prems(3) obtain p ps' where ps: "ps = p # ps'" and r: "r = (p, None)"
    and rest: "inferAll a1 ws = map (\<lambda>p. (p, None)) ps'"
    by (cases ps) auto
  have a1: "sameTrigger a1 a" and W1: "windowSize a1 \<noteq> 0"
    using sameTrigger_Infer [OF Cons.prems(2), of w] Infer_windowSize [OF Cons.prems(2), of w]
      inf Cons.prems(2) by simp_all
  let ?a2 = "a1\<lparr>currSample := currSample a1 + int (windowSize a1)\<rparr>"
  let ?b2 = "b\<lparr>currSample := currSample b + int (windowSize b)\<rparr>"
  have "sameTrigger a1 b"
    using a1 Cons.prems(1) by (simp add: sameTrigger_def)
  then have s2: "sameTrigger ?a2 ?b2"
    by (rule sameTrigger_currSample)
  obtain ev e a3 where adA: "advanceSpeech ?a2 p ms pad = ((ev, e), a3)"
    by (metis surj_pair)
  obtain ev' e' b3 where adB: "advanceSpeech ?b2 p ms pad = ((ev', e'), b3)"
    by (metis surj_pair)
  from sameTrigger_advance [OF s2, of p ms pad] adA adB
  have same: "ev' = ev" "e' = e" "sameTrigger a3 b3" by simp_all
  have pw: "processWindow a w ms pad = ((ev, e), a3)"
    using inf r adA by (simp add: processWindow_def)
  show ?case
  proof (cases e)
    case (Some err)
    with pw adB same ps show ?thesis by simp
  next
    case None
    have W3: "windowSize a3 \<noteq> 0"
      using advanceSpeech_windowSize [of ?a2 p ms pad] adA W1 by simp
    have "sameInfer a3 a1"
      using sameInfer_advance [of ?a2 p ms pad] adA sameInfer_currSample [where a = a1]
      by (auto intro: sameInfer_trans)
    then have rest3: "inferAll a3 ws = map (\<lambda>p. (p, None)) ps'"
      using rest by (simp add: sameInfer_inferAll)
    from Cons.IH [OF same(3) W3 rest3]
    show ?thesis
      using pw adB same ps None by (auto split: prod.splits)
  qed
qed

lemma inferAll_length: "length (inferAll sd ws) = length ws"
  by (induction ws arbitrary: sd) (auto split: prod.splits)

text \<open>The trigger on the six probabilities of the scenario.\<close>

lemma scenario_trigger:
  assumes "SampleRate (cfg sd) = 16000" and "Threshold (cfg sd) = 1 / 2"
      and "windowSize sd = 512" and "currSample sd = 0" and "\<not> triggered sd"
      and "tempEnd sd = 0"
  shows "fst (triggerRun sd [1 / 10, 1 / 10, 3 / 5, 3 / 5, 1 / 10, 1 / 10] 0 0) =
     ([noEvent, noEvent, noEvent\<lparr>hasStart := True, startAt := 8 / 125\<rparr>, noEvent,
       noEvent\<lparr>hasEnd := True, endAt := 4 / 25, endStartAt := 8 / 125\<rparr>, noEvent], None)"
  using assms by (simp add: advanceSpeech_def Let_def noEvent_def)

lemma scenario_segments:
  "foldl assembleBatch []
     [noEvent, noEvent, noEvent\<lparr>hasStart := True, startAt := 8 / 125\<rparr>, noEvent,
      noEvent\<lparr>hasEnd := True, endAt := 4 / 25, endStartAt := 8 / 125\<rparr>, noEvent]
   = [\<lparr>SpeechStartAt = 8 / 125, SpeechEndAt = 4 / 25\<rparr>]"
  by (simp add: assembleBatch_def closeOrAppend_def noEvent_def)

lemma scenario_Detect:
  assumes c: "SampleRate c = 16000" "Threshold c = 1 / 2"
             "MinSilenceDurationMs c = 0" "SpeechPadMs c = 0"
      and probs: "inferAll (freshDetector sess c) (windowsOf 512 pcm)
                    = map (\<lambda>p. (p, None)) [1 / 10, 1 / 10, 3 / 5, 3 / 5, 1 / 10, 1 / 10]"
  shows "fst (Detect (freshDetector sess c) pcm)
           = ([\<lparr>SpeechStartAt = 8 / 125, SpeechEndAt = 4 / 25\<rparr>], None)"
proof -
  let ?sd = "freshDetector sess c"
  have W: "windowSize ?sd = 512"
    using c by (simp add: freshDetector_def windowSizeForSampleRate_def)
  have "length (windowsOf 512 pcm) = 6"
    using arg_cong [OF probs, of length] by (simp add: inferAll_length)
  then have "windowsOf 512 pcm \<noteq> []" by auto
  then have len: "512 \<le> length pcm"
    using windowsOf_short [of pcm 512] by (cases "length pcm < 512") auto
  have cfg: "cfg ?sd = c" by (simp add: freshDetector_def)
  have ms: "go_quot (wrap64 (MinSilenceDurationMs (cfg ?sd) * SampleRate (cfg ?sd))) 1000 = 0"
    and pad: "go_quot (wrap64 (SpeechPadMs (cfg ?sd) * SampleRate (cfg ?sd))) 1000 = 0"
    using c by (simp_all add: cfg go_quot_def wrap64_def)
  have trig: "fst (triggerRun ?sd [1 / 10, 1 / 10, 3 / 5, 3 / 5, 1 / 10, 1 / 10] 0 0) =
     ([noEvent, noEvent, noEvent\<lparr>hasStart := True, startAt := 8 / 125\<rparr>, noEvent,
       noEvent\<lparr>hasEnd := True, endAt := 4 / 25, endStartAt := 8 / 125\<rparr>, noEvent], None)"
    by (rule scenario_trigger) (simp_all add: freshDetector_def c windowSizeForSampleRate_def)
  have run: "fst (runWindows ?sd (windowsOf 512 pcm) 0 0) =
     ([noEvent, noEvent, noEvent\<lparr>hasStart := True, startAt := 8 / 125\<rparr>, noEvent,
       noEvent\<lparr>hasEnd := True, endAt := 4 / 25, endStartAt := 8 / 125\<rparr>, noEvent], None)"
    using runWindows_triggerRun [OF sameTrigger_refl _ probs, of 0 0] W trig by simp
  have "Detect ?sd pcm =
     (case runWindows ?sd (windowsOf 512 pcm) 0 0 of
        ((evs, Some err), sd') \<Rightarrow> (([], Some err), sd')
      | ((evs, None), sd') \<Rightarrow> ((foldl assembleBatch [] evs, None), sd'))"
    using Detect_runWindows [of ?sd pcm] W len unfolding ms pad by simp
  with run scenario_segments show ?thesis
    by (auto split: prod.splits option.splits)
qed

lemma demo_windows:
  "windowsOf 512 demoPcm =
     [replicate 512 (1 / 10), replicate 512 (1 / 10), replicate 512 (3 / 5),
      replicate 512 (3 / 5), replicate 512 (1 / 10), replicate 512 (1 / 10)]"
proof -
  have "windowsOf 512 (replicate 512 (1 / 10 :: rat)) = [replicate 512 (1 / 10)]"
    using windowsOf_append_window [of 512 "replicate 512 (1 / 10 :: rat)" "[]"]
    by (simp add: windowsOf_short)
  then show ?thesis
    by (simp add: demoPcm_def windowsOf_append_window)
qed

lemma Infer_demo:
  assumes "wellFormed sd" and "session sd = demoSession" and "windowSize sd = 512"
      and "length (state sd) \<le> stateLen"
  shows "Infer sd (replicate 512 p) =
           ((p, None), sd\<lparr>inputBuf := replicate 64 p @ replicate 512 p\<rparr>)"
  using assms
  by (simp add: Infer_wellFormed demoSession_def demoModel_def contextLen_def)

section \<open>The batch assembler and the six-window scenario\<close>

lemma demo_inferAll:
  "inferAll (freshDetector demoSession demoCfg) (windowsOf 512 demoPcm)
     = map (\<lambda>p. (p, None)) [1 / 10, 1 / 10, 3 / 5, 3 / 5, 1 / 10, 1 / 10]"
  unfolding demo_windows
  by (simp add: Infer_demo wellFormed_def freshDetector_def demoCfg_def
        windowSizeForSampleRate_def contextLen_def stateLen_def)

text \<open>
  C5. A \<^verbatim>\<open>Detect\<close> call on at least one window returns the fold, in event order, of
  the batch rule over the events of its windows: a start event appends an open segment
  (\<open>SpeechEndAt = 0\<close>); an end event sets the end of the last segment when that one is
  open and carries the event's \<open>endStartAt\<close>, and appends the closed segment
  \<open>(endStartAt, endAt)\<close> otherwise. An error in a window discards the list.
\<close>

theorem Detect_batch_assembler:
  assumes "windowSize sd \<noteq> 0" and "windowSize sd \<le> length pcm"
  shows "Detect sd pcm =
     (case runWindows sd (windowsOf (windowSize sd) pcm)
             (go_quot (wrap64 (MinSilenceDurationMs (cfg sd) * SampleRate (cfg sd))) 1000)
             (go_quot (wrap64 (SpeechPadMs (cfg sd) * SampleRate (cfg sd))) 1000) of
        ((evs, None), sd') \<Rightarrow> ((foldl assembleBatch [] evs, None), sd')
      | ((evs, Some err), sd') \<Rightarrow> (([], Some err), sd'))"
  using assms by (simp add: Detect_runWindows split: prod.splits option.splits)

lemma demo_run:
  "fst (runWindows (freshDetector demoSession demoCfg) (windowsOf 512 demoPcm) 0 0) =
     ([noEvent, noEvent, noEvent\<lparr>hasStart := True, startAt := 8 / 125\<rparr>, noEvent,
       noEvent\<lparr>hasEnd := True, endAt := 4 / 25, endStartAt := 8 / 125\<rparr>, noEvent], None)"
proof -
  let ?sd = "freshDetector demoSession demoCfg"
  have "fst (triggerRun ?sd [1 / 10, 1 / 10, 3 / 5, 3 / 5, 1 / 10, 1 / 10] 0 0) =
     ([noEvent, noEvent, noEvent\<lparr>hasStart := True, startAt := 8 / 125\<rparr>, noEvent,
       noEvent\<lparr>hasEnd := True, endAt := 4 / 25, endStartAt := 8 / 125\<rparr>, noEvent], None)"
    by (rule scenario_trigger)
       (simp_all add: freshDetector_def demoCfg_def windowSizeForSampleRate_def)
  moreover have "windowSize ?sd \<noteq> 0"
    by (simp add: freshDetector_def demoCfg_def windowSizeForSampleRate_def)
  ultimately show ?thesis
    using runWindows_triggerRun [OF sameTrigger_refl _ demo_inferAll, of 0 0] by simp
qed

theorem Detect_batch_assembler_witness:
  "windowSize (freshDetector demoSession demoCfg) \<noteq> 0
   \<and> windowSize (freshDetector demoSession demoCfg) \<le> length demoPcm
   \<and> fst (Detect (freshDetector demoSession demoCfg) demoPcm) =
       (foldl assembleBatch []
          [noEvent, noEvent, noEvent\<lparr>hasStart := True, startAt := 8 / 125\<rparr>, noEvent,
           noEvent\<lparr>hasEnd := True, endAt := 4 / 25, endStartAt := 8 / 125\<rparr>, noEvent], None)"
proof -
  let ?sd = "freshDetector demoSession demoCfg"
  have W: "windowSize ?sd = 512"
    by (simp add: freshDetector_def demoCfg_def windowSizeForSampleRate_def)
  have len: "length demoPcm = 3072" by (simp add: demoPcm_def)
  have ms: "go_quot (wrap64 (MinSilenceDurationMs (cfg ?sd) * SampleRate (cfg ?sd))) 1000 = 0"
    and pad: "go_quot (wrap64 (SpeechPadMs (cfg ?sd) * SampleRate (cfg ?sd))) 1000 = 0"
    by (simp_all add: freshDetector_def demoCfg_def go_quot_def wrap64_def)
  from Detect_batch_assembler [of ?sd demoPcm] W len
  have "Detect ?sd demoPcm =
     (case runWindows ?sd (windowsOf 512 demoPcm) 0 0 of
        ((evs, None), sd') \<Rightarrow> ((foldl assembleBatch [] evs, None), sd')
      | ((evs, Some err), sd') \<Rightarrow> (([], Some err), sd'))"
    unfolding ms pad by simp
  with demo_run W len show ?thesis
    by (auto split: prod.splits option.splits)
qed

text \<open>
  C2, as the code has it. At 16 kHz with threshold 0.5, no minimum silence and no
  padding, six windows of 512 samples with probabilities 0.1, 0.1, 0.6, 0.6, 0.1, 0.1 give
  exactly one segment from a fresh detector. It starts at the boundary of window 2,
  \<open>2 * 512 / 16000 = 0.064\<close> s, and ends at \<open>5 * 512 / 16000 = 0.16\<close> s: the release
  point is \<open>currSample\<close> after the first silent window has been counted, the far
  boundary of window 4.
\<close>

theorem scenario_six_windows:
  assumes "SampleRate c = 16000" and "Threshold c = 1 / 2"
      and "MinSilenceDurationMs c = 0" and "SpeechPadMs c = 0"
      and "inferAll (freshDetector sess c) (windowsOf 512 pcm)
             = map (\<lambda>p. (p, None)) [1 / 10, 1 / 10, 3 / 5, 3 / 5, 1 / 10, 1 / 10]"
  shows "fst (Detect (freshDetector sess c) pcm)
           = ([\<lparr>SpeechStartAt = 2 * 512 / 16000, SpeechEndAt = 5 * 512 / 16000\<rparr>], None)"
  using scenario_Detect [OF assms] by simp

theorem scenario_six_windows_witness:
  "SampleRate demoCfg = 16000 \<and> Threshold demoCfg = 1 / 2
   \<and> MinSilenceDurationMs demoCfg = 0 \<and> SpeechPadMs demoCfg = 0
   \<and> inferAll (freshDetector demoSession demoCfg) (windowsOf 512 demoPcm)
        = map (\<lambda>p. (p, None)) [1 / 10, 1 / 10, 3 / 5, 3 / 5, 1 / 10, 1 / 10]
   \<and> fst (Detect (freshDetector demoSession demoCfg) demoPcm)
        = ([\<lparr>SpeechStartAt = 2 * 512 / 16000, SpeechEndAt = 5 * 512 / 16000\<rparr>], None)"
  using scenario_six_windows [of demoCfg demoSession demoPcm] demo_inferAll
  by (simp add: demoCfg_def)

text \<open>
  C2 as stated fails on the worked example: the inferences return the six probabilities,
  and the end \<open>4 * 512 / 16000 = 0.128\<close> s that the specification names is not the end
  \<^verbatim>\<open>Detect\<close> returns.
\<close>

theorem scenario_six_windows_counterexample:
  "inferAll (freshDetector demoSession demoCfg) (windowsOf 512 demoPcm)
        = map (\<lambda>p. (p, None)) [1 / 10, 1 / 10, 3 / 5, 3 / 5, 1 / 10, 1 / 10]
   \<and> fst (Detect (freshDetector demoSession demoCfg) demoPcm)
        \<noteq> ([\<lparr>SpeechStartAt = 2 * 512 / 16000, SpeechEndAt = 4 * 512 / 16000\<rparr>], None)"
proof -
  have "fst (Detect (freshDetector demoSession demoCfg) demoPcm)
          = ([\<lparr>SpeechStartAt = 8 / 125, SpeechEndAt = 4 / 25\<rparr>], None)"
    by (rule scenario_Detect [OF _ _ _ _ demo_inferAll]) (simp_all add: demoCfg_def)
  with demo_inferAll show ?thesis by simp
qed

section \<open>Debounce\<close>

lemma triggerRun_dip:
  assumes "triggered sd" and "p < Threshold (cfg sd) - 15 / 100"
      and "rel = (if tempEnd sd = 0 then currSample sd + int (windowSize sd) else tempEnd sd)"
      and "currSample sd + int (windowSize sd) - rel < ms"
  shows "advanceSpeech (sd\<lparr>currSample := currSample sd + int (windowSize sd)\<rparr>) p ms pad =
           ((noEvent, None), sd\<lparr>currSample := currSample sd + int (windowSize sd), tempEnd := rel\<rparr>)"
proof -
  from assms(2) have nr: "\<not> p \<ge> Threshold (cfg sd)" by simp
  show ?thesis
  proof (cases "tempEnd sd = 0")
    case True
    with assms nr show ?thesis
      by (simp add: advanceSpeech_unfold Let_def)
  next
    case False
    with assms nr show ?thesis
      by (simp add: advanceSpeech_unfold Let_def)
  qed
qed

lemma triggerRun_rise:
  assumes "triggered sd" and "p \<ge> Threshold (cfg sd)"
  shows "advanceSpeech (sd\<lparr>currSample := currSample sd + int (windowSize sd)\<rparr>) p ms pad =
           ((noEvent, None), sd\<lparr>currSample := currSample sd + int (windowSize sd), tempEnd := 0\<rparr>)"
  using assms by (simp add: advanceSpeech_unfold Let_def)

text \<open>
  C4, with the elapsed samples counted as the code counts them. From a triggered state
  (sample counter not negative and window size positive, as in every reachable state),
  let \<open>rel\<close> be the release point: \<open>tempEnd\<close> if one is pending, the sample count after
  the first window of the run otherwise. If a run of windows below
  \<open>Threshold - 0.15\<close> stays less than \<open>minSilenceSamples\<close> past \<open>rel\<close> and a window at
  or above the threshold follows, then no window of the run or the recovering one emits
  an event or an error, \<open>triggered\<close>, \<open>pendingStart\<close> and \<open>pendingStartValid\<close> are
  unchanged, and \<open>tempEnd\<close> is 0 afterwards.
\<close>

theorem debounce_holds:
  assumes "triggered sd"
      and "\<forall>p \<in> set dips. p < Threshold (cfg sd) - 15 / 100"
      and "rise \<ge> Threshold (cfg sd)"
      and "0 \<le> currSample sd" and "0 < windowSize sd"
      and "rel = (if tempEnd sd = 0 then currSample sd + int (windowSize sd) else tempEnd sd)"
      and "\<forall>k < length dips. currSample sd + int (Suc k) * int (windowSize sd) - rel < ms"
  shows "triggerRun sd (dips @ [rise]) ms pad =
           ((replicate (Suc (length dips)) noEvent, None),
            sd\<lparr>currSample := currSample sd + int (Suc (length dips)) * int (windowSize sd),
               tempEnd := 0\<rparr>)"
  using assms
proof (induction dips arbitrary: sd)
  case Nil
  then show ?case by (simp add: triggerRun_rise)
next
  case (Cons p dips)
  let ?sd1 = "sd\<lparr>currSample := currSample sd + int (windowSize sd), tempEnd := rel\<rparr>"
  have p: "p < Threshold (cfg sd) - 15 / 100"
    using Cons.prems(2) by simp
  have first: "currSample sd + int (windowSize sd) - rel < ms"
    using Cons.prems(7) by force
  have step: "advanceSpeech (sd\<lparr>currSample := currSample sd + int (windowSize sd)\<rparr>) p ms pad =
                ((noEvent, None), ?sd1)"
    by (rule triggerRun_dip [OF Cons.prems(1) p Cons.prems(6) first])
  have rel0: "rel \<noteq> 0"
    using Cons.prems(4,5,6) by (auto split: if_splits)
  have later: "\<forall>k < length dips. currSample ?sd1 + int (Suc k) * int (windowSize ?sd1) - rel < ms"
  proof (intro allI impI)
    fix k assume "k < length dips"
    then have "Suc k < length (p # dips)" by simp
    with Cons.prems(7) have "currSample sd + int (Suc (Suc k)) * int (windowSize sd) - rel < ms"
      by blast
    then show "currSample ?sd1 + int (Suc k) * int (windowSize ?sd1) - rel < ms"
      by (simp add: algebra_simps)
  qed
  have IH: "triggerRun ?sd1 (dips @ [rise]) ms pad =
           ((replicate (Suc (length dips)) noEvent, None),
            ?sd1\<lparr>currSample := currSample ?sd1 + int (Suc (length dips)) * int (windowSize ?sd1),
               tempEnd := 0\<rparr>)"
    using Cons.prems(1,2,3,4,5) rel0 later
    by (intro Cons.IH) simp_all
  show ?case
    using step IH by (simp add: algebra_simps)
qed


theorem debounce_holds_witness:
  "triggered ((freshDetector demoSession debounceCfg)
                \<lparr>currSample := 512, triggered := True, pendingStartValid := True\<rparr>)
   \<and> 1 / 10 < Threshold debounceCfg - 15 / 100
   \<and> 3 / 5 \<ge> Threshold debounceCfg
   \<and> 512 + 1 * 512 - 1024 < (1024 :: int) \<and> 512 + 2 * 512 - 1024 < (1024 :: int)
   \<and> triggerRun ((freshDetector demoSession debounceCfg)
                   \<lparr>currSample := 512, triggered := True, pendingStartValid := True\<rparr>)
        ([1 / 10, 1 / 10] @ [3 / 5]) 1024 0 =
        (([noEvent, noEvent, noEvent], None),
         (freshDetector demoSession debounceCfg)
           \<lparr>currSample := 2048, triggered := True, pendingStartValid := True, tempEnd := 0\<rparr>)"
proof -
  let ?sd = "(freshDetector demoSession debounceCfg)
               \<lparr>currSample := 512, triggered := True, pendingStartValid := True\<rparr>"
  have cfg: "cfg ?sd = debounceCfg" and W: "windowSize ?sd = 512" and c: "currSample ?sd = 512"
    and te: "tempEnd ?sd = 0"
    by (simp_all add: freshDetector_def debounceCfg_def demoCfg_def windowSizeForSampleRate_def)
  have th: "Threshold debounceCfg = 1 / 2"
    by (simp add: debounceCfg_def demoCfg_def)
  have "triggerRun ?sd ([1 / 10, 1 / 10] @ [3 / 5]) 1024 0 =
          ((replicate (Suc (length [1 / 10, 1 / 10 :: rat])) noEvent, None),
           ?sd\<lparr>currSample := currSample ?sd
                                + int (Suc (length [1 / 10, 1 / 10 :: rat])) * int (windowSize ?sd),
               tempEnd := 0\<rparr>)"
    by (rule debounce_holds [where rel = 1024]) (simp_all add: cfg W c te th less_Suc_eq)
  then show ?thesis
    by (simp add: th W c del: triggerRun.simps)
qed

lemma staleRelease_eq:
  "staleRelease =
     (freshDetector demoSession debounceCfg)
       \<lparr>currSample := 1536, tempEnd := 1024, triggered := True, pendingStart := 0,
        pendingStartValid := True\<rparr>"
  by (simp add: staleRelease_def advanceSpeech_unfold Let_def freshDetector_def debounceCfg_def
        demoCfg_def windowSizeForSampleRate_def)

text \<open>
  C4 as stated fails: counting from the first window of the run is not enough when a
  release point is already pending. In \<open>staleRelease\<close> the dip of the second window set \<open>tempEnd\<close>, and
  the third window (0.4, between the two thresholds) did not clear it. One more dip,
  zero samples into its own run, is 1024 samples past \<open>tempEnd\<close> and ends the segment;
  the recovering window then starts a new one.
\<close>

theorem debounce_holds_counterexample:
  "triggered staleRelease
   \<and> (1 / 10 :: rat) < Threshold (cfg staleRelease) - 15 / 100
   \<and> 3 / 5 \<ge> Threshold (cfg staleRelease)
   \<and> (0 :: int) < 1024
   \<and> fst (triggerRun staleRelease [1 / 10, 3 / 5] 1024 0) =
       ([noEvent\<lparr>hasEnd := True, endAt := 8 / 125, endStartAt := 0\<rparr>,
         noEvent\<lparr>hasStart := True, startAt := 16 / 125\<rparr>], None)
   \<and> pendingStart (snd (triggerRun staleRelease [1 / 10, 3 / 5] 1024 0))
       \<noteq> pendingStart staleRelease"
  unfolding staleRelease_eq
  by (simp add: advanceSpeech_unfold Let_def freshDetector_def debounceCfg_def
        demoCfg_def windowSizeForSampleRate_def)

section \<open>Runs of windows keep what each window keeps\<close>

lemma runWindows_rule:
  assumes step: "\<And>sd w. P sd \<Longrightarrow>
                   P (snd (processWindow sd w ms pad)) \<and> Q (snd (fst (processWindow sd w ms pad)))"
      and "P sd" and "Q None"
  shows "P (snd (runWindows sd ws ms pad)) \<and> Q (snd (fst (runWindows sd ws ms pad)))"
  using assms(2)
proof (induction ws arbitrary: sd)
  case Nil
  with assms(3) show ?case by simp
next
  case (Cons w ws)
  obtain ev e sd1 where pw: "processWindow sd w ms pad = ((ev, e), sd1)"
    by (metis surj_pair)
  from step [OF Cons.prems, of w] pw have P1: "P sd1" and Qe: "Q e" by simp_all
  show ?case
  proof (cases e)
    case (Some err)
    with pw P1 Qe show ?thesis by simp
  next
    case None
    with pw Cons.IH [OF P1] show ?thesis by (auto split: prod.splits)
  qed
qed

lemma Detect_rule:
  assumes step: "\<And>sd w ms pad. P sd \<Longrightarrow>
                   P (snd (processWindow sd w ms pad)) \<and> Q (snd (fst (processWindow sd w ms pad)))"
      and P: "P sd" and W: "windowSize sd \<noteq> 0"
      and "Q None" and "Q (Some NotEnoughSamples)"
  shows "P (snd (Detect sd pcm)) \<and> Q (snd (fst (Detect sd pcm)))"
proof (cases "length pcm < windowSize sd")
  case True
  with assms show ?thesis by (simp add: Detect_def)
next
  case False
  let ?ms = "go_quot (wrap64 (MinSilenceDurationMs (cfg sd) * SampleRate (cfg sd))) 1000"
  let ?pad = "go_quot (wrap64 (SpeechPadMs (cfg sd) * SampleRate (cfg sd))) 1000"
  from runWindows_rule [of P ?ms ?pad Q, OF step P assms(4)]
  have "P (snd (runWindows sd (windowsOf (windowSize sd) pcm) ?ms ?pad))
        \<and> Q (snd (fst (runWindows sd (windowsOf (windowSize sd) pcm) ?ms ?pad)))"
    by simp
  with False W show ?thesis
    by (auto simp: Detect_runWindows split: prod.splits option.splits)
qed

section \<open>The streaming loop\<close>

lemma leftover_step:
  "0 < W \<Longrightarrow> W \<le> length xs \<Longrightarrow> leftover W xs = leftover W (drop W xs)"
  by (subst leftover.simps) simp

lemma leftover_stop: "\<not> (0 < W \<and> W \<le> length xs) \<Longrightarrow> leftover W xs = xs"
  by (subst leftover.simps) auto

lemma leftover_short: "length xs < W \<Longrightarrow> leftover W xs = xs"
  by (rule leftover_stop) simp

lemma leftover_length: "0 < W \<Longrightarrow> length (leftover W xs) < W"
proof (induction W xs rule: leftover.induct)
  case (1 W xs)
  show ?case
  proof (cases "W \<le> length xs")
    case True
    with "1.prems" "1.IH" show ?thesis by (simp add: leftover_step)
  next
    case False
    then show ?thesis by (simp add: leftover_stop)
  qed
qed

lemma DetectStream_loop_stop:
  "\<not> (0 < W \<and> index + W \<le> length pcm) \<Longrightarrow>
   DetectStream_loop W ms pad pcm index segs sd =
     ((segs, None),
      (if index < length pcm then sd\<lparr>streamBuf := streamBuf sd @ drop index pcm\<rparr> else sd))"
  by (subst DetectStream_loop.simps) (simp only: if_False)

lemma DetectStream_loop_step:
  "0 < W \<Longrightarrow> index + W \<le> length pcm \<Longrightarrow>
   DetectStream_loop W ms pad pcm index segs sd =
     (case processWindow sd (take W (drop index pcm)) ms pad of
        ((event, Some err), sd1) \<Rightarrow> (([], Some err), sd1)
      | ((event, None), sd1) \<Rightarrow>
          DetectStream_loop W ms pad pcm (index + W) (appendEvent segs event) sd1)"
  by (subst DetectStream_loop.simps) simp

lemma leftover_drop_step:
  assumes "0 < W" and "i + W \<le> length pcm"
  shows "leftover W (drop i pcm) = leftover W (drop (i + W) pcm)"
proof -
  from assms have "W \<le> length (drop i pcm)" by simp
  with assms(1) have "leftover W (drop i pcm) = leftover W (drop W (drop i pcm))"
    by (rule leftover_step)
  then show ?thesis by (simp add: add.commute)
qed

lemma leftover_drop_stop:
  assumes "\<not> (0 < W \<and> i + W \<le> length pcm)"
  shows "leftover W (drop i pcm) = drop i pcm"
  using assms by (intro leftover_stop) auto

lemma DetectStream_loop_runWindows:
  "DetectStream_loop W ms pad pcm index segs sd =
     (case runWindows sd (windowsOf W (drop index pcm)) ms pad of
        ((evs, Some err), sd') \<Rightarrow> (([], Some err), sd')
      | ((evs, None), sd') \<Rightarrow>
          ((foldl appendEvent segs evs, None),
           (if leftover W (drop index pcm) \<noteq> []
            then sd'\<lparr>streamBuf := streamBuf sd' @ leftover W (drop index pcm)\<rparr>
            else sd')))"
proof (induction "length pcm - index" arbitrary: index segs sd rule: less_induct)
  case less
  show ?case
  proof (cases "0 < W \<and> index + W \<le> length pcm")
    case False
    then show ?thesis
      by (simp add: DetectStream_loop_stop windowsOf_drop_stop leftover_drop_stop)
  next
    case True
    then have W: "0 < W" and le: "index + W \<le> length pcm" by auto
    obtain ev e sd1 where pw: "processWindow sd (take W (drop index pcm)) ms pad = ((ev, e), sd1)"
      by (metis surj_pair)
    show ?thesis
    proof (cases e)
      case (Some err)
      with pw show ?thesis
        by (simp add: DetectStream_loop_step [OF W le] windowsOf_drop_step [OF W le])
    next
      case None
      have "length pcm - (index + W) < length pcm - index"
        using W le by simp
      note IH = less [OF this, of "appendEvent segs ev" sd1]
      from pw None show ?thesis
        by (simp add: DetectStream_loop_step [OF W le] windowsOf_drop_step [OF W le]
              leftover_drop_step [OF W le] IH
            split: prod.splits option.splits, auto)
    qed
  qed
qed


text \<open>Nothing in a window reads or writes the carry-over buffer.\<close>

lemma Infer_streamBuf:
  "Infer (sd\<lparr>streamBuf := x\<rparr>) w = (case Infer sd w of (r, sd') \<Rightarrow> (r, sd'\<lparr>streamBuf := x\<rparr>))"
proof -
  define W where "W = (if windowSize sd = 0 then windowSizeForSampleRate (SampleRate (cfg sd))
                       else windowSize sd)"
  define buf0 where "buf0 = (if length (inputBuf sd) \<noteq> contextLen + W
                             then replicate (contextLen + W) 0 else inputBuf sd)"
  define rv where "rv = (if rateValue sd = 0 then SampleRate (cfg sd) else rateValue sd)"
  define buf1 where "buf1 = take contextLen buf0 @ copy_slice (drop contextLen buf0) w"
  note U = Infer_eq [OF W_def buf0_def rv_def buf1_def]
  have "Infer (sd\<lparr>streamBuf := x\<rparr>) w =
      (if length w \<noteq> W
       then ((0, Some (InvalidSamplesLength W (length w))), sd\<lparr>streamBuf := x, windowSize := W\<rparr>)
       else case session sd buf1 (state sd) rv of
              Inl msg \<Rightarrow>
                ((0, Some (OrtFailure msg)),
                 sd\<lparr>streamBuf := x, windowSize := W, inputBuf := buf1, rateValue := rv\<rparr>)
            | Inr (prob, stateN) \<Rightarrow>
                ((prob, None),
                 sd\<lparr>streamBuf := x, windowSize := W, rateValue := rv, state := take stateLen stateN,
                    inputBuf := copy_slice (take contextLen buf1) (drop W buf1)
                                @ drop contextLen buf1\<rparr>))"
    using Infer_eq [of W "sd\<lparr>streamBuf := x\<rparr>" buf0 rv buf1 w]
    by (simp add: W_def buf0_def rv_def buf1_def)
  then show ?thesis
    unfolding U by (simp split: sum.splits)
qed

lemma advanceSpeech_streamBuf:
  "advanceSpeech (sd\<lparr>streamBuf := x\<rparr>) p ms pad =
     (case advanceSpeech sd p ms pad of (r, sd') \<Rightarrow> (r, sd'\<lparr>streamBuf := x\<rparr>))"
  by (simp add: advanceSpeech_unfold Let_def)

lemma processWindow_streamBuf:
  "processWindow (sd\<lparr>streamBuf := x\<rparr>) w ms pad =
     (case processWindow sd w ms pad of (r, sd') \<Rightarrow> (r, sd'\<lparr>streamBuf := x\<rparr>))"
proof -
  obtain p e sd1 where inf: "Infer sd w = ((p, e), sd1)"
    by (metis surj_pair)
  then have inf': "Infer (sd\<lparr>streamBuf := x\<rparr>) w = ((p, e), sd1\<lparr>streamBuf := x\<rparr>)"
    by (simp add: Infer_streamBuf)
  show ?thesis
  proof (cases e)
    case (Some err)
    with inf inf' show ?thesis by (simp add: processWindow_def)
  next
    case None
    let ?c = "currSample sd1 + int (windowSize sd1)"
    have "sd1\<lparr>streamBuf := x, currSample := ?c\<rparr> = (sd1\<lparr>currSample := ?c\<rparr>)\<lparr>streamBuf := x\<rparr>"
      by simp
    then have "advanceSpeech (sd1\<lparr>streamBuf := x, currSample := ?c\<rparr>) p ms pad =
       (case advanceSpeech (sd1\<lparr>currSample := ?c\<rparr>) p ms pad of
          (r, sd') \<Rightarrow> (r, sd'\<lparr>streamBuf := x\<rparr>))"
      by (simp only: advanceSpeech_streamBuf)
    with inf inf' None show ?thesis by (simp add: processWindow_def)
  qed
qed

lemma runWindows_streamBuf:
  "runWindows (sd\<lparr>streamBuf := x\<rparr>) ws ms pad =
     (case runWindows sd ws ms pad of (r, sd') \<Rightarrow> (r, sd'\<lparr>streamBuf := x\<rparr>))"
proof (induction ws arbitrary: sd)
  case Nil
  show ?case by simp
next
  case (Cons w ws)
  show ?case
    by (simp add: processWindow_streamBuf Cons.IH split: prod.splits option.splits)
qed

lemma processWindow_streamBuf_same:
  "streamBuf (snd (processWindow sd w ms pad)) = streamBuf sd"
proof -
  obtain p e sd1 where inf: "Infer sd w = ((p, e), sd1)"
    by (metis surj_pair)
  with Infer_frame [of sd w] have sb: "streamBuf sd1 = streamBuf sd" by simp
  show ?thesis
  proof (cases e)
    case (Some err)
    with inf sb show ?thesis by (simp add: processWindow_def)
  next
    case None
    with inf sb
      advanceSpeech_frame [of "sd1\<lparr>currSample := currSample sd1 + int (windowSize sd1)\<rparr>" p ms pad]
    show ?thesis by (simp add: processWindow_def)
  qed
qed

lemma runWindows_streamBuf_same:
  "streamBuf (snd (runWindows sd ws ms pad)) = streamBuf sd"
proof (induction ws arbitrary: sd)
  case Nil
  show ?case by simp
next
  case (Cons w ws)
  obtain ev e sd1 where pw: "processWindow sd w ms pad = ((ev, e), sd1)"
    by (metis surj_pair)
  with processWindow_streamBuf_same [of sd w ms pad] have "streamBuf sd1 = streamBuf sd"
    by simp
  with pw Cons.IH [of sd1] show ?case
    by (cases e) (auto split: prod.splits)
qed


lemma DetectStream_loop_empty_buffer:
  assumes "streamBuf sd = []"
  shows "DetectStream_loop W ms pad pcm index segs sd =
     (case runWindows sd (windowsOf W (drop index pcm)) ms pad of
        ((evs, Some err), sd') \<Rightarrow> (([], Some err), sd'\<lparr>streamBuf := []\<rparr>)
      | ((evs, None), sd') \<Rightarrow>
          ((foldl appendEvent segs evs, None),
           sd'\<lparr>streamBuf := leftover W (drop index pcm)\<rparr>))"
proof -
  obtain evs e sd' where run: "runWindows sd (windowsOf W (drop index pcm)) ms pad = ((evs, e), sd')"
    by (metis surj_pair)
  with runWindows_streamBuf_same [of sd "windowsOf W (drop index pcm)" ms pad] assms
  have sb: "streamBuf sd' = []" by simp
  then have same: "sd'\<lparr>streamBuf := []\<rparr> = sd'"
    by (metis Detector.surjective Detector.update_convs(9))
  show ?thesis
  proof (cases e)
    case (Some err)
    with run same show ?thesis by (simp add: DetectStream_loop_runWindows)
  next
    case None
    show ?thesis
    proof (cases "leftover W (drop index pcm) = []")
      case True
      with run None same show ?thesis by (simp add: DetectStream_loop_runWindows)
    next
      case False
      with run None sb show ?thesis by (simp add: DetectStream_loop_runWindows)
    qed
  qed
qed

lemma DetectStream_runWindows:
  assumes W: "windowSize sd \<noteq> 0" and buf: "length (streamBuf sd) < windowSize sd"
  shows "DetectStream sd pcm =
     (case runWindows sd (windowsOf (windowSize sd) (streamBuf sd @ pcm))
             (go_quot (wrap64 (MinSilenceDurationMs (cfg sd) * SampleRate (cfg sd))) 1000)
             (go_quot (wrap64 (SpeechPadMs (cfg sd) * SampleRate (cfg sd))) 1000) of
        ((evs, Some err), sd') \<Rightarrow>
          (([], Some err),
           sd'\<lparr>streamBuf := (if evs = [] \<and> streamBuf sd \<noteq> []
                              then take (windowSize sd) (streamBuf sd @ pcm) else [])\<rparr>)
      | ((evs, None), sd') \<Rightarrow>
          ((foldl appendEvent [] evs, None),
           sd'\<lparr>streamBuf := leftover (windowSize sd) (streamBuf sd @ pcm)\<rparr>))"
proof -
  let ?W = "windowSize sd"
  let ?ms = "go_quot (wrap64 (MinSilenceDurationMs (cfg sd) * SampleRate (cfg sd))) 1000"
  let ?pad = "go_quot (wrap64 (SpeechPadMs (cfg sd) * SampleRate (cfg sd))) 1000"
  let ?b = "streamBuf sd"
  from W have W0: "0 < ?W" by simp
  show ?thesis
  proof (cases "pcm = []")
    case True
    have "sd\<lparr>streamBuf := ?b\<rparr> = sd" by simp
    with True buf show ?thesis
      by (simp add: DetectStream_def windowsOf_short leftover_short)
  next
    case pcm: False
    show ?thesis
    proof (cases "?b = []")
      case True
      have "DetectStream sd pcm = DetectStream_loop ?W ?ms ?pad pcm 0 [] sd"
        using pcm True W by (simp add: DetectStream_def Let_def)
      also have "\<dots> =
        (case runWindows sd (windowsOf ?W (drop 0 pcm)) ?ms ?pad of
          ((evs, Some err), sd') \<Rightarrow> (([], Some err), sd'\<lparr>streamBuf := []\<rparr>)
        | ((evs, None), sd') \<Rightarrow>
            ((foldl appendEvent [] evs, None), sd'\<lparr>streamBuf := leftover ?W (drop 0 pcm)\<rparr>))"
        by (rule DetectStream_loop_empty_buffer [OF True])
      finally show ?thesis
        using True by (simp split: prod.splits option.splits)
    next
      case nonempty: False
      show ?thesis
      proof (cases "length ?b + length pcm < ?W")
        case True
        then have "int (length pcm) < int ?W - int (length ?b)" by simp
        then have "DetectStream sd pcm = (([], None), sd\<lparr>streamBuf := ?b @ pcm\<rparr>)"
          using pcm nonempty W by (simp add: DetectStream_def Let_def)
        with True show ?thesis
          by (simp add: windowsOf_short leftover_short)
      next
        case False
        define needed where "needed = ?W - length ?b"
        define w where "w = ?b @ take needed pcm"
        define rest where "rest = drop needed pcm"
        from False buf have n: "needed \<le> length pcm" "0 < needed"
          and ni: "int ?W - int (length ?b) = int needed"
          by (simp_all add: needed_def)
        have wlen: "length w = ?W"
          using n buf by (simp add: w_def needed_def)
        have split: "?b @ pcm = w @ rest"
          by (simp add: w_def rest_def)
        have ws: "windowsOf ?W (?b @ pcm) = w # windowsOf ?W rest"
          unfolding split by (rule windowsOf_append_window [OF W0 wlen])
        have lo: "leftover ?W (?b @ pcm) = leftover ?W rest"
          unfolding split using leftover_step [of ?W "w @ rest"] W0 wlen by simp
        have tk: "take ?W (?b @ pcm) = w"
          unfolding split using wlen by simp
        obtain ev e Y where pw: "processWindow sd w ?ms ?pad = ((ev, e), Y)"
          by (metis surj_pair)
        then have pw2: "processWindow (sd\<lparr>streamBuf := w\<rparr>) w ?ms ?pad
                          = ((ev, e), Y\<lparr>streamBuf := w\<rparr>)"
          by (simp add: processWindow_streamBuf)
        have unfold: "DetectStream sd pcm =
            (case processWindow (sd\<lparr>streamBuf := w\<rparr>) w ?ms ?pad of
               ((event, Some err), sd3) \<Rightarrow> (([], Some err), sd3)
             | ((event, None), sd3) \<Rightarrow>
                 DetectStream_loop ?W ?ms ?pad pcm needed (appendEvent [] event)
                   (sd3\<lparr>streamBuf := []\<rparr>))"
          using pcm nonempty W False n
          by (simp add: DetectStream_def Let_def ni w_def)
        show ?thesis
        proof (cases e)
          case (Some err)
          with unfold pw pw2 ws nonempty tk show ?thesis by simp
        next
          case None
          obtain evs e' Z where run: "runWindows Y (windowsOf ?W rest) ?ms ?pad = ((evs, e'), Z)"
            by (metis surj_pair)
          have run0: "runWindows (Y\<lparr>streamBuf := []\<rparr>) (windowsOf ?W (drop needed pcm)) ?ms ?pad
                        = ((evs, e'), Z\<lparr>streamBuf := []\<rparr>)"
            using run by (simp add: runWindows_streamBuf rest_def)
          have "DetectStream sd pcm =
                  DetectStream_loop ?W ?ms ?pad pcm needed (appendEvent [] ev) (Y\<lparr>streamBuf := []\<rparr>)"
            using unfold pw2 None by simp
          also have "\<dots> =
            (case runWindows (Y\<lparr>streamBuf := []\<rparr>) (windowsOf ?W (drop needed pcm)) ?ms ?pad of
               ((evs, Some err), sd') \<Rightarrow> (([], Some err), sd'\<lparr>streamBuf := []\<rparr>)
             | ((evs, None), sd') \<Rightarrow>
                 ((foldl appendEvent (appendEvent [] ev) evs, None),
                  sd'\<lparr>streamBuf := leftover ?W (drop needed pcm)\<rparr>))"
            by (rule DetectStream_loop_empty_buffer) simp
          finally have D: "DetectStream sd pcm =
            (case e' of
               Some err \<Rightarrow> (([], Some err), Z\<lparr>streamBuf := []\<rparr>)
             | None \<Rightarrow> ((foldl appendEvent (appendEvent [] ev) evs, None),
                         Z\<lparr>streamBuf := leftover ?W rest\<rparr>))"
            unfolding run0 by (simp add: rest_def split: option.splits)
          show ?thesis
            unfolding D ws lo using pw None run
            by (simp split: option.splits)
        qed
      qed
    qed
  qed
qed

section \<open>What every operation keeps\<close>

lemma DetectStream_rule:
  assumes step: "\<And>sd w ms pad. P sd \<Longrightarrow>
                   P (snd (processWindow sd w ms pad)) \<and> Q (snd (fst (processWindow sd w ms pad)))"
      and upd: "\<And>sd x. P sd \<Longrightarrow> P (sd\<lparr>streamBuf := x\<rparr>)"
      and P: "P sd" and W: "windowSize sd \<noteq> 0"
      and Q: "Q None" "Q (Some SliceBoundsOutOfRange)"
  shows "P (snd (DetectStream sd pcm)) \<and> Q (snd (fst (DetectStream sd pcm)))"
proof -
  let ?W = "windowSize sd"
  let ?ms = "go_quot (wrap64 (MinSilenceDurationMs (cfg sd) * SampleRate (cfg sd))) 1000"
  let ?pad = "go_quot (wrap64 (SpeechPadMs (cfg sd) * SampleRate (cfg sd))) 1000"
  have loop: "P (snd (DetectStream_loop ?W ?ms ?pad pcm i segs s))
              \<and> Q (snd (fst (DetectStream_loop ?W ?ms ?pad pcm i segs s)))"
    if "P s" for i segs s
  proof -
    obtain evs e s' where run: "runWindows s (windowsOf ?W (drop i pcm)) ?ms ?pad = ((evs, e), s')"
      by (metis surj_pair)
    from runWindows_rule [of P ?ms ?pad Q, OF step that Q(1), of "windowsOf ?W (drop i pcm)"] run
    have "P s'" and "Q e" by simp_all
    with run upd show ?thesis
      by (cases e) (simp_all add: DetectStream_loop_runWindows)
  qed
  show ?thesis
  proof (cases "pcm = []")
    case True
    with P Q show ?thesis by (simp add: DetectStream_def)
  next
    case pcm: False
    show ?thesis
    proof (cases "streamBuf sd = []")
      case True
      with pcm W loop [OF P, of 0 "[]"] show ?thesis
        by (simp add: DetectStream_def Let_def)
    next
      case nonempty: False
      let ?needed = "int ?W - int (length (streamBuf sd))"
      show ?thesis
      proof (cases "int (length pcm) < ?needed")
        case True
        with pcm nonempty W upd [OF P] Q show ?thesis
          by (simp add: DetectStream_def Let_def)
      next
        case enough: False
        show ?thesis
        proof (cases "?needed < 0")
          case True
          with pcm nonempty W enough P Q show ?thesis
            by (simp add: DetectStream_def Let_def)
        next
          case False
          let ?sd2 = "sd\<lparr>streamBuf := streamBuf sd @ take (nat ?needed) pcm\<rparr>"
          obtain ev e sd3 where pw: "processWindow ?sd2 (streamBuf ?sd2) ?ms ?pad = ((ev, e), sd3)"
            by (metis surj_pair)
          from step [OF upd [OF P], of "streamBuf sd @ take (nat ?needed) pcm"
                       "streamBuf ?sd2" ?ms ?pad] pw
          have P3: "P sd3" and Qe: "Q e" by simp_all
          have unfold: "DetectStream sd pcm =
            (case processWindow ?sd2 (streamBuf ?sd2) ?ms ?pad of
               ((event, Some err), sd3) \<Rightarrow> (([], Some err), sd3)
             | ((event, None), sd3) \<Rightarrow>
                 DetectStream_loop ?W ?ms ?pad pcm (nat ?needed) (appendEvent [] event)
                   (sd3\<lparr>streamBuf := []\<rparr>))"
            using pcm nonempty W enough False
            by (simp add: DetectStream_def Let_def)
          show ?thesis
          proof (cases e)
            case (Some err)
            with unfold pw P3 Qe show ?thesis by simp
          next
            case None
            have "P (sd3\<lparr>streamBuf := []\<rparr>)" by (rule upd [OF P3])
            from loop [OF this, of "nat ?needed" "appendEvent [] ev"] unfold pw None
            show ?thesis by simp
          qed
        qed
      qed
    qed
  qed
qed

lemma Infer_keeps_wellFormed:
  assumes "wellFormed sd"
  shows "wellFormed (snd (Infer sd w))"
proof (cases "length w = windowSize sd")
  case True
  from assms have W: "contextLen \<le> windowSize sd"
    using wellFormed_windowSize [OF assms] by (auto simp: contextLen_def)
  show ?thesis
    using assms True W
    by (simp add: Infer_wellFormed [OF assms True] wellFormed_def split: sum.splits prod.splits)
next
  case False
  from assms have "windowSize sd \<noteq> 0"
    using wellFormed_windowSize [OF assms] by auto
  with False Infer_length_mismatch [of "windowSize sd" sd w] assms show ?thesis
    by simp
qed

lemma advanceSpeech_keeps_wellFormed:
  "wellFormed sd \<Longrightarrow> wellFormed (snd (advanceSpeech sd p ms pad))"
  using advanceSpeech_frame [of sd p ms pad] by (simp add: wellFormed_def)

lemma processWindow_frame:
  "session (snd (processWindow sd w ms pad)) = session sd
   \<and> cfg (snd (processWindow sd w ms pad)) = cfg sd"
proof -
  obtain p e sd1 where inf: "Infer sd w = ((p, e), sd1)"
    by (metis surj_pair)
  with Infer_frame [of sd w] have f: "session sd1 = session sd" "cfg sd1 = cfg sd" by simp_all
  show ?thesis
  proof (cases e)
    case (Some err)
    with inf f show ?thesis by (simp add: processWindow_def)
  next
    case None
    with inf f
      advanceSpeech_frame [of "sd1\<lparr>currSample := currSample sd1 + int (windowSize sd1)\<rparr>" p ms pad]
    show ?thesis by (simp add: processWindow_def)
  qed
qed

lemma processWindow_keeps_wellFormed:
  assumes "wellFormed sd"
  shows "wellFormed (snd (processWindow sd w ms pad))"
proof -
  obtain p e sd1 where inf: "Infer sd w = ((p, e), sd1)"
    by (metis surj_pair)
  with Infer_keeps_wellFormed [OF assms, of w] have wf1: "wellFormed sd1" by simp
  show ?thesis
  proof (cases e)
    case (Some err)
    with inf wf1 show ?thesis by (simp add: processWindow_def)
  next
    case None
    have "wellFormed (sd1\<lparr>currSample := currSample sd1 + int (windowSize sd1)\<rparr>)"
      using wf1 by (simp add: wellFormed_def)
    from advanceSpeech_keeps_wellFormed [OF this, of p ms pad] inf None
    show ?thesis by (simp add: processWindow_def)
  qed
qed

text \<open>The trigger invariant: a triggered detector has a pending start.\<close>

lemma advanceSpeech_pending:
  assumes "triggered sd \<longrightarrow> pendingStartValid sd"
  shows "(triggered (snd (advanceSpeech sd p ms pad))
            \<longrightarrow> pendingStartValid (snd (advanceSpeech sd p ms pad)))
         \<and> snd (fst (advanceSpeech sd p ms pad)) \<noteq> Some UnexpectedSpeechEnd"
  using assms by (simp add: advanceSpeech_unfold Let_def)

lemma processWindow_pending:
  assumes "triggered sd \<longrightarrow> pendingStartValid sd"
  shows "(triggered (snd (processWindow sd w ms pad))
            \<longrightarrow> pendingStartValid (snd (processWindow sd w ms pad)))
         \<and> snd (fst (processWindow sd w ms pad)) \<noteq> Some UnexpectedSpeechEnd"
proof -
  obtain p e sd1 where inf: "Infer sd w = ((p, e), sd1)"
    by (metis surj_pair)
  with Infer_frame [of sd w] assms have I1: "triggered sd1 \<longrightarrow> pendingStartValid sd1" by simp
  show ?thesis
  proof (cases e)
    case (Some err)
    with inf I1 show ?thesis by (simp add: processWindow_def)
  next
    case None
    let ?sd2 = "sd1\<lparr>currSample := currSample sd1 + int (windowSize sd1)\<rparr>"
    from I1 have "triggered ?sd2 \<longrightarrow> pendingStartValid ?sd2" by simp
    from advanceSpeech_pending [OF this, of p ms pad] inf None
    show ?thesis by (simp add: processWindow_def)
  qed
qed

lemma reachable_invariant:
  assumes "reachable sd"
  shows "wellFormed sd \<and> (triggered sd \<longrightarrow> pendingStartValid sd)"
  using assms
proof (induction rule: reachable.induct)
  case (constructed ort c sd e)
  then obtain sess where "IsValid c = None" and "sd = freshDetector sess c"
    by (auto simp: NewDetector_Some)
  then show ?case
    using wellFormed_fresh [of c sess] by (simp add: IsValid_None freshDetector_def)
next
  case (afterDetect sd pcm)
  let ?P = "\<lambda>s. wellFormed s \<and> (triggered s \<longrightarrow> pendingStartValid s)"
  have "?P (snd (Detect sd pcm)) \<and> True"
  proof (rule Detect_rule [where P = ?P and Q = "\<lambda>_. True"])
    show "?P s \<Longrightarrow> ?P (snd (processWindow s w ms pad)) \<and> True" for s w ms pad
      using processWindow_keeps_wellFormed [of s w ms pad] processWindow_pending [of s w ms pad]
      by simp
    show "?P sd" using afterDetect.IH by simp
    show "windowSize sd \<noteq> 0"
      using afterDetect.IH wellFormed_windowSize [of sd] by auto
  qed simp_all
  then show ?case by simp
next
  case (afterDetectStream sd pcm)
  let ?P = "\<lambda>s. wellFormed s \<and> (triggered s \<longrightarrow> pendingStartValid s)"
  have "?P (snd (DetectStream sd pcm)) \<and> True"
  proof (rule DetectStream_rule [where P = ?P and Q = "\<lambda>_. True"])
    show "?P s \<Longrightarrow> ?P (snd (processWindow s w ms pad)) \<and> True" for s w ms pad
      using processWindow_keeps_wellFormed [of s w ms pad] processWindow_pending [of s w ms pad]
      by simp
    show "?P s \<Longrightarrow> ?P (s\<lparr>streamBuf := x\<rparr>)" for s x
      by (simp add: wellFormed_def)
    show "?P sd" using afterDetectStream.IH by simp
    show "windowSize sd \<noteq> 0"
      using afterDetectStream.IH wellFormed_windowSize [of sd] by auto
  qed simp_all
  then show ?case by simp
next
  case (afterInfer sd samples)
  then show ?case
    using Infer_keeps_wellFormed [of sd samples] Infer_frame [of sd samples] by simp
next
  case (afterReset sd)
  then show ?case by (simp add: Reset_def wellFormed_def)
next
  case (afterSetThreshold sd v)
  then show ?case by (simp add: SetThreshold_def wellFormed_def)
qed

lemma demo_fresh_facts:
  "wellFormed (freshDetector demoSession demoCfg)"
  "session (freshDetector demoSession demoCfg) = demoSession"
  "windowSize (freshDetector demoSession demoCfg) = 512"
  "length (state (freshDetector demoSession demoCfg)) \<le> stateLen"
  "cfg (freshDetector demoSession demoCfg) = demoCfg"
  by (simp_all add: wellFormed_def freshDetector_def demoCfg_def windowSizeForSampleRate_def)

lemma demo_NewDetector:
  "NewDetector (\<lambda>_. Inr demoSession) demoCfg = (Some (freshDetector demoSession demoCfg), None)"
  by (simp add: NewDetector_Some demoCfg_valid)

lemma speakingDetector_eq:
  "speakingDetector =
     (freshDetector demoSession demoCfg)
       \<lparr>inputBuf := replicate 64 (3 / 5) @ replicate 512 (3 / 5), currSample := 512,
        tempEnd := 0, triggered := True, pendingStart := 0, pendingStartValid := True\<rparr>"
proof -
  let ?sd = "freshDetector demoSession demoCfg"
  have ws: "windowsOf 512 (replicate 512 (3 / 5 :: rat)) = [replicate 512 (3 / 5)]"
    using windowsOf_append_window [of 512 "replicate 512 (3 / 5 :: rat)" "[]"]
    by (simp add: windowsOf_short)
  have pw: "processWindow ?sd (replicate 512 (3 / 5)) 0 0 =
      ((noEvent\<lparr>hasStart := True, startAt := 0\<rparr>, None),
       ?sd\<lparr>inputBuf := replicate 64 (3 / 5) @ replicate 512 (3 / 5), currSample := 512,
           tempEnd := 0, triggered := True, pendingStart := 0, pendingStartValid := True\<rparr>)"
    by (simp add: processWindow_def Infer_demo demo_fresh_facts advanceSpeech_unfold Let_def)
       (simp add: freshDetector_def demoCfg_def windowSizeForSampleRate_def)
  have ms: "go_quot (wrap64 (MinSilenceDurationMs demoCfg * SampleRate demoCfg)) 1000 = 0"
    and pad: "go_quot (wrap64 (SpeechPadMs demoCfg * SampleRate demoCfg)) 1000 = 0"
    by (simp_all add: demoCfg_def go_quot_def wrap64_def)
  show ?thesis
    unfolding speakingDetector_def
    by (simp add: Detect_runWindows demo_fresh_facts ws ms pad pw)
qed

text \<open>
  C6. In every state a caller can reach from a constructed detector, by any mix of
  \<^verbatim>\<open>Detect\<close>, \<^verbatim>\<open>DetectStream\<close>, \<^verbatim>\<open>Infer\<close>, \<^verbatim>\<open>Reset\<close> and \<^verbatim>\<open>SetThreshold\<close>, failed calls
  included, \<open>triggered\<close> implies \<open>pendingStartValid\<close>. So the end-finalization
  branch always finds a pending start: no \<^verbatim>\<open>Detect\<close> or \<^verbatim>\<open>DetectStream\<close> call and no
  window processed from such a state returns the "unexpected speech end" error.
\<close>

theorem unexpected_speech_end_unreachable:
  assumes "reachable sd"
  shows "(triggered sd \<longrightarrow> pendingStartValid sd)
         \<and> snd (fst (Detect sd pcm)) \<noteq> Some UnexpectedSpeechEnd
         \<and> snd (fst (DetectStream sd chunk)) \<noteq> Some UnexpectedSpeechEnd
         \<and> snd (fst (processWindow sd w ms pad)) \<noteq> Some UnexpectedSpeechEnd"
proof -
  let ?P = "\<lambda>s. wellFormed s \<and> (triggered s \<longrightarrow> pendingStartValid s)"
  let ?Q = "\<lambda>e. e \<noteq> Some UnexpectedSpeechEnd"
  from reachable_invariant [OF assms] have P: "?P sd" .
  then have W: "windowSize sd \<noteq> 0"
    using wellFormed_windowSize [of sd] by auto
  have step: "?P s \<Longrightarrow> ?P (snd (processWindow s w ms pad)) \<and> ?Q (snd (fst (processWindow s w ms pad)))"
    for s w ms pad
    using processWindow_keeps_wellFormed [of s w ms pad] processWindow_pending [of s w ms pad]
    by simp
  have "?P (snd (Detect sd pcm)) \<and> ?Q (snd (fst (Detect sd pcm)))"
    by (rule Detect_rule [where P = ?P and Q = ?Q, OF step P W]) simp_all
  moreover have "?P (snd (DetectStream sd chunk)) \<and> ?Q (snd (fst (DetectStream sd chunk)))"
  proof (rule DetectStream_rule [where P = ?P and Q = ?Q, OF step _ P W])
    show "?P s \<Longrightarrow> ?P (s\<lparr>streamBuf := x\<rparr>)" for s x
      by (simp add: wellFormed_def)
  qed simp_all
  ultimately show ?thesis
    using P step [OF P, of w ms pad] by simp
qed

theorem unexpected_speech_end_unreachable_witness:
  "reachable speakingDetector
   \<and> triggered speakingDetector \<and> pendingStartValid speakingDetector
   \<and> snd (fst (Detect speakingDetector demoPcm)) \<noteq> Some UnexpectedSpeechEnd
   \<and> snd (fst (DetectStream speakingDetector (replicate 100 (1 / 10)))) \<noteq> Some UnexpectedSpeechEnd
   \<and> snd (fst (processWindow speakingDetector (replicate 512 (1 / 10)) 0 0))
        \<noteq> Some UnexpectedSpeechEnd"
proof -
  have "reachable (freshDetector demoSession demoCfg)"
    by (rule reachable.constructed [OF demo_NewDetector])
  then have r: "reachable speakingDetector"
    unfolding speakingDetector_def by (rule reachable.afterDetect)
  have t: "triggered speakingDetector"
    by (simp add: speakingDetector_eq)
  from unexpected_speech_end_unreachable
         [OF r, of demoPcm "replicate 100 (1 / 10)" "replicate 512 (1 / 10)" 0 0] r t
  show ?thesis by simp
qed

section \<open>Reset\<close>

lemma Reset_fresh:
  assumes "wellFormed sd"
  shows "snd (Reset sd) = freshDetector (session sd) (cfg sd)"
proof -
  from assms have "map (\<lambda>_. 0) (inputBuf sd)
                     = replicate (contextLen + windowSizeForSampleRate (SampleRate (cfg sd))) 0"
    by (simp add: wellFormed_def map_replicate_const)
  with assms show ?thesis
    by (intro Detector.equality) (simp_all add: Reset_def freshDetector_def wellFormed_def)
qed

lemma exec_keeps_setup:
  assumes "wellFormed sd"
  shows "wellFormed (snd (exec c sd)) \<and> session (snd (exec c sd)) = session sd
         \<and> cfg (snd (exec c sd)) = cfg sd"
proof -
  let ?P = "\<lambda>s. wellFormed s \<and> session s = session sd \<and> cfg s = cfg sd"
  have P: "?P sd" using assms by simp
  have W: "windowSize sd \<noteq> 0"
    using wellFormed_windowSize [OF assms] by auto
  have step: "?P s \<Longrightarrow> ?P (snd (processWindow s w ms pad)) \<and> True" for s w ms pad
    using processWindow_keeps_wellFormed [of s w ms pad] processWindow_frame [of s w ms pad]
    by simp
  show ?thesis
  proof (cases c)
    case (CallDetect pcm)
    have "?P (snd (Detect sd pcm)) \<and> True"
      by (rule Detect_rule [where P = ?P and Q = "\<lambda>_. True", OF step P W]) simp_all
    with CallDetect show ?thesis by simp
  next
    case (CallDetectStream pcm)
    have "?P (snd (DetectStream sd pcm)) \<and> True"
    proof (rule DetectStream_rule [where P = ?P and Q = "\<lambda>_. True", OF step _ P W])
      show "?P s \<Longrightarrow> ?P (s\<lparr>streamBuf := x\<rparr>)" for s x
        by (auto simp: wellFormed_def)
    qed simp_all
    with CallDetectStream show ?thesis by simp
  qed
qed

lemma replay_keeps_setup:
  assumes "wellFormed sd"
  shows "wellFormed (snd (replay sd cs)) \<and> session (snd (replay sd cs)) = session sd
         \<and> cfg (snd (replay sd cs)) = cfg sd"
  using assms
proof (induction cs arbitrary: sd)
  case Nil
  then show ?case by simp
next
  case (Cons c cs)
  from exec_keeps_setup [OF Cons.prems, of c] Cons.IH [of "snd (exec c sd)"]
  show ?case by (simp add: case_prod_beta)
qed

text \<open>
  C7. After any history of \<^verbatim>\<open>Detect\<close> and \<^verbatim>\<open>DetectStream\<close> calls on a constructed
  detector, failed ones included, \<^verbatim>\<open>Reset\<close> gives back the detector as it was
  constructed: recurrent state, context, carry-over buffer and trigger state. Replaying
  any sequence of calls after it returns what the fresh detector returns, call by call,
  and ends in the same state.
\<close>

theorem reset_replay:
  assumes "NewDetector ort c = (Some sd0, e)"
  shows "snd (Reset (snd (replay sd0 history))) = sd0
         \<and> replay (snd (Reset (snd (replay sd0 history)))) calls = replay sd0 calls"
proof -
  from assms obtain sess where valid: "IsValid c = None" and sd0: "sd0 = freshDetector sess c"
    by (auto simp: NewDetector_Some)
  then have wf: "wellFormed sd0"
    using wellFormed_fresh [of c sess] by (simp add: IsValid_None)
  from replay_keeps_setup [OF wf, of history]
  have "snd (Reset (snd (replay sd0 history))) = freshDetector (session sd0) (cfg sd0)"
    by (simp add: Reset_fresh)
  also have "\<dots> = sd0"
    by (simp add: sd0 freshDetector_def)
  finally show ?thesis by simp
qed

theorem reset_replay_witness:
  "NewDetector (\<lambda>_. Inr demoSession) demoCfg = (Some (freshDetector demoSession demoCfg), None)
   \<and> replay (snd (Reset (snd (replay (freshDetector demoSession demoCfg)
                                 [CallDetectStream (replicate 100 (3 / 5)), CallDetect demoPcm]))))
        [CallDetectStream (replicate 100 (3 / 5)), CallDetect demoPcm]
      = replay (freshDetector demoSession demoCfg)
          [CallDetectStream (replicate 100 (3 / 5)), CallDetect demoPcm]"
  using reset_replay [OF demo_NewDetector,
    of "[CallDetectStream (replicate 100 (3 / 5)), CallDetect demoPcm]"
       "[CallDetectStream (replicate 100 (3 / 5)), CallDetect demoPcm]"]
    demo_NewDetector
  by (simp del: replay.simps)

section \<open>The context\<close>

lemma contextOf_length: "wellFormed sd \<Longrightarrow> length (contextOf sd) = contextLen"
  by (simp add: contextOf_def wellFormed_def)

lemma contextOf_streamBuf [simp]: "contextOf (sd\<lparr>streamBuf := x\<rparr>) = contextOf sd"
  by (simp add: contextOf_def)

lemma Infer_context:
  assumes wf: "wellFormed sd" and len: "length w = windowSize sd"
  shows "Infer sd w =
     (case session sd (contextOf sd @ w) (state sd) (rateValue sd) of
        Inl msg \<Rightarrow> ((0, Some (OrtFailure msg)), sd\<lparr>inputBuf := contextOf sd @ w\<rparr>)
      | Inr (p, stateN) \<Rightarrow>
          ((p, None), sd\<lparr>state := take stateLen stateN,
                          inputBuf := contextAfter (contextOf sd) [w] @ w\<rparr>))"
  using len
  by (simp add: Infer_wellFormed [OF wf len] contextOf_def contextAfter_def
        split: sum.splits prod.splits)

lemma Infer_context_after:
  assumes wf: "wellFormed sd" and ok: "snd (fst (Infer sd w)) = None"
  shows "contextOf (snd (Infer sd w)) = contextAfter (contextOf sd) [w]"
proof -
  from wf have W: "windowSize sd \<noteq> 0" "contextLen \<le> windowSize sd"
    using wellFormed_windowSize [OF wf] by (auto simp: contextLen_def)
  have len: "length w = windowSize sd"
  proof (rule ccontr)
    assume "length w \<noteq> windowSize sd"
    with Infer_length_mismatch [of "windowSize sd" sd w] W ok show False by simp
  qed
  have "length (contextAfter (contextOf sd) [w]) = contextLen"
    using len W by (simp add: contextAfter_def)
  then have "take contextLen (contextAfter (contextOf sd) [w] @ w) = contextAfter (contextOf sd) [w]"
    by simp
  with ok show ?thesis
    unfolding Infer_context [OF wf len]
    by (simp add: contextOf_def split: sum.splits prod.splits)
qed

lemma processWindow_context:
  assumes wf: "wellFormed sd" and ok: "snd (fst (processWindow sd w ms pad)) = None"
  shows "contextOf (snd (processWindow sd w ms pad)) = contextAfter (contextOf sd) [w]"
proof -
  obtain p e sd1 where inf: "Infer sd w = ((p, e), sd1)"
    by (metis surj_pair)
  with ok have e: "e = None"
    by (cases e) (simp_all add: processWindow_def)
  with inf Infer_context_after [OF wf, of w]
  have c1: "contextOf sd1 = contextAfter (contextOf sd) [w]" by simp
  from inf e
    advanceSpeech_frame [of "sd1\<lparr>currSample := currSample sd1 + int (windowSize sd1)\<rparr>" p ms pad]
  have "inputBuf (snd (processWindow sd w ms pad)) = inputBuf sd1"
    by (simp add: processWindow_def)
  with c1 show ?thesis by (simp add: contextOf_def)
qed

lemma contextAfter_Cons: "contextAfter ctx (w # ws) = contextAfter (contextAfter ctx [w]) ws"
  by (simp add: contextAfter_def)

lemma runWindows_context:
  assumes "wellFormed sd" and "snd (fst (runWindows sd ws ms pad)) = None"
  shows "contextOf (snd (runWindows sd ws ms pad)) = contextAfter (contextOf sd) ws"
  using assms
proof (induction ws arbitrary: sd)
  case Nil
  then show ?case by (simp add: contextAfter_def)
next
  case (Cons w ws)
  obtain ev e sd1 where pw: "processWindow sd w ms pad = ((ev, e), sd1)"
    by (metis surj_pair)
  with Cons.prems(2) have e: "e = None"
    by (cases e) simp_all
  from processWindow_keeps_wellFormed [OF Cons.prems(1), of w ms pad] pw
  have wf1: "wellFormed sd1" by simp
  from processWindow_context [OF Cons.prems(1), of w ms pad] pw e
  have c1: "contextOf sd1 = contextAfter (contextOf sd) [w]" by simp
  from Cons.prems(2) pw e have ok: "snd (fst (runWindows sd1 ws ms pad)) = None"
    by (simp split: prod.splits)
  from Cons.IH [OF wf1 ok] pw e c1 show ?case
    by (auto simp: contextAfter_Cons [of _ w ws] split: prod.splits)
qed

lemma Detect_context:
  assumes wf: "wellFormed sd" and ok: "snd (fst (Detect sd pcm)) = None"
  shows "contextOf (snd (Detect sd pcm)) = contextAfter (contextOf sd) (windowsOf (windowSize sd) pcm)"
proof -
  let ?ms = "go_quot (wrap64 (MinSilenceDurationMs (cfg sd) * SampleRate (cfg sd))) 1000"
  let ?pad = "go_quot (wrap64 (SpeechPadMs (cfg sd) * SampleRate (cfg sd))) 1000"
  let ?ws = "windowsOf (windowSize sd) pcm"
  from wf have W: "windowSize sd \<noteq> 0"
    using wellFormed_windowSize [OF wf] by auto
  have len: "windowSize sd \<le> length pcm"
  proof (rule ccontr)
    assume "\<not> windowSize sd \<le> length pcm"
    with ok W show False by (simp add: Detect_def)
  qed
  obtain evs e sd' where run: "runWindows sd ?ws ?ms ?pad = ((evs, e), sd')"
    by (metis surj_pair)
  with ok have e: "e = None"
    by (cases e) (simp_all add: Detect_runWindows [OF W len])
  from runWindows_context [OF wf, of ?ws ?ms ?pad] run e
  have "contextOf sd' = contextAfter (contextOf sd) ?ws" by simp
  with run e show ?thesis
    by (simp add: Detect_runWindows [OF W len])
qed

lemma DetectStream_context:
  assumes wf: "wellFormed sd" and buf: "length (streamBuf sd) < windowSize sd"
      and ok: "snd (fst (DetectStream sd chunk)) = None"
  shows "contextOf (snd (DetectStream sd chunk))
           = contextAfter (contextOf sd) (windowsOf (windowSize sd) (streamBuf sd @ chunk))"
proof -
  let ?ms = "go_quot (wrap64 (MinSilenceDurationMs (cfg sd) * SampleRate (cfg sd))) 1000"
  let ?pad = "go_quot (wrap64 (SpeechPadMs (cfg sd) * SampleRate (cfg sd))) 1000"
  let ?ws = "windowsOf (windowSize sd) (streamBuf sd @ chunk)"
  from wf have W: "windowSize sd \<noteq> 0"
    using wellFormed_windowSize [OF wf] by auto
  obtain evs e sd' where run: "runWindows sd ?ws ?ms ?pad = ((evs, e), sd')"
    by (metis surj_pair)
  with ok have e: "e = None"
    by (cases e) (simp_all add: DetectStream_runWindows [OF W buf])
  from runWindows_context [OF wf, of ?ws ?ms ?pad] run e
  have "contextOf sd' = contextAfter (contextOf sd) ?ws" by simp
  with run e show ?thesis
    by (simp add: DetectStream_runWindows [OF W buf])
qed

lemma Reset_context: "wellFormed sd \<Longrightarrow> contextOf (snd (Reset sd)) = replicate contextLen 0"
  by (simp add: Reset_fresh contextOf_def freshDetector_def)

lemma NewDetector_context:
  "NewDetector ort c = (Some sd0, e) \<Longrightarrow> contextOf sd0 = replicate contextLen 0"
  by (auto simp: NewDetector_Some contextOf_def freshDetector_def)

text \<open>
  C10. In every reachable state the context is \<^verbatim>\<open>contextLen\<close> = 64 floats, and an
  inference on a window hands the session the context followed by the window's samples,
  not the bare window. After a successful \<^verbatim>\<open>Infer\<close> the context is the last 64 samples
  of the window just inferred (after a failed one it is unchanged). A successful
  \<^verbatim>\<open>Detect\<close> or \<^verbatim>\<open>DetectStream\<close> leaves the last 64 samples of the last window it
  inferred, and the old context when it inferred none; for \<^verbatim>\<open>DetectStream\<close> the windows
  are those of the carry-over buffer followed by the chunk, the buffer being shorter than
  a window as it is unless the previous streaming call failed. After construction and
  after \<^verbatim>\<open>Reset\<close> the context is all zeros.
\<close>

theorem context_invariant:
  assumes "reachable sd"
  shows "length (contextOf sd) = contextLen
    \<and> (length w = windowSize sd \<longrightarrow>
         Infer sd w =
           (case session sd (contextOf sd @ w) (state sd) (rateValue sd) of
              Inl msg \<Rightarrow> ((0, Some (OrtFailure msg)), sd\<lparr>inputBuf := contextOf sd @ w\<rparr>)
            | Inr (p, stateN) \<Rightarrow>
                ((p, None), sd\<lparr>state := take stateLen stateN,
                                inputBuf := contextAfter (contextOf sd) [w] @ w\<rparr>)))
    \<and> (snd (fst (Infer sd w)) = None \<longrightarrow>
         contextOf (snd (Infer sd w)) = contextAfter (contextOf sd) [w])
    \<and> (snd (fst (Detect sd pcm)) = None \<longrightarrow>
         contextOf (snd (Detect sd pcm))
           = contextAfter (contextOf sd) (windowsOf (windowSize sd) pcm))
    \<and> (length (streamBuf sd) < windowSize sd \<and> snd (fst (DetectStream sd chunk)) = None \<longrightarrow>
         contextOf (snd (DetectStream sd chunk))
           = contextAfter (contextOf sd) (windowsOf (windowSize sd) (streamBuf sd @ chunk)))
    \<and> contextOf (snd (Reset sd)) = replicate contextLen 0
    \<and> (\<forall>ort c sd0 e. NewDetector ort c = (Some sd0, e) \<longrightarrow>
          contextOf sd0 = replicate contextLen 0)"
proof -
  from reachable_invariant [OF assms] have wf: "wellFormed sd" by simp
  show ?thesis
    using contextOf_length [OF wf] Infer_context [OF wf, of w] Infer_context_after [OF wf, of w]
      Detect_context [OF wf, of pcm] DetectStream_context [OF wf, of chunk]
      Reset_context [OF wf] NewDetector_context
    by blast
qed

lemma speaking_facts:
  "wellFormed speakingDetector"
  "session speakingDetector = demoSession"
  "windowSize speakingDetector = 512"
  "length (state speakingDetector) \<le> stateLen"
  "cfg speakingDetector = demoCfg"
  "streamBuf speakingDetector = []"
  "contextOf speakingDetector = replicate 64 (3 / 5)"
  "triggered speakingDetector"
  "pendingStartValid speakingDetector"
  by (simp_all add: speakingDetector_eq demo_fresh_facts wellFormed_def contextOf_def
        contextLen_def)
     (simp_all add: freshDetector_def demoCfg_def windowSizeForSampleRate_def contextLen_def)

lemma one_window: "windowsOf 512 (replicate 512 (x :: rat)) = [replicate 512 x]"
  using windowsOf_append_window [of 512 "replicate 512 x" "[]"]
  by (simp add: windowsOf_short)

theorem context_invariant_witness:
  "reachable speakingDetector
   \<and> length (contextOf speakingDetector) = contextLen
   \<and> contextOf speakingDetector = replicate 64 (3 / 5)
   \<and> length (replicate 512 (1 / 10 :: rat)) = windowSize speakingDetector
   \<and> snd (fst (Infer speakingDetector (replicate 512 (1 / 10)))) = None
   \<and> contextOf (snd (Infer speakingDetector (replicate 512 (1 / 10)))) = replicate 64 (1 / 10)
   \<and> snd (fst (Detect speakingDetector (replicate 512 (1 / 10)))) = None
   \<and> contextOf (snd (Detect speakingDetector (replicate 512 (1 / 10)))) = replicate 64 (1 / 10)
   \<and> length (streamBuf speakingDetector) < windowSize speakingDetector
   \<and> snd (fst (DetectStream speakingDetector (replicate 100 (1 / 10)))) = None
   \<and> contextOf (snd (DetectStream speakingDetector (replicate 100 (1 / 10)))) = replicate 64 (3 / 5)
   \<and> contextOf (snd (Reset speakingDetector)) = replicate contextLen 0
   \<and> contextOf (freshDetector demoSession demoCfg) = replicate contextLen 0"
proof -
  let ?sd = speakingDetector
  let ?w = "replicate 512 (1 / 10 :: rat)"
  let ?chunk = "replicate 100 (1 / 10 :: rat)"
  have "reachable (freshDetector demoSession demoCfg)"
    by (rule reachable.constructed [OF demo_NewDetector])
  then have r: "reachable ?sd"
    unfolding speakingDetector_def by (rule reachable.afterDetect)
  have inf: "Infer ?sd ?w = ((1 / 10, None), ?sd\<lparr>inputBuf := replicate 64 (1 / 10) @ ?w\<rparr>)"
    by (rule Infer_demo) (simp_all add: speaking_facts)
  then have i1: "snd (fst (Infer ?sd ?w)) = None" by simp
  have after: "contextAfter (replicate 64 (3 / 5)) [?w] = replicate 64 (1 / 10)"
    by (simp add: contextAfter_def contextLen_def)
  have ms: "go_quot (wrap64 (MinSilenceDurationMs demoCfg * SampleRate demoCfg)) 1000 = 0"
    and pad: "go_quot (wrap64 (SpeechPadMs demoCfg * SampleRate demoCfg)) 1000 = 0"
    by (simp_all add: demoCfg_def go_quot_def wrap64_def)
  have th: "Threshold demoCfg = 1 / 2"
    by (simp add: demoCfg_def)
  have pw: "snd (fst (processWindow ?sd ?w 0 0)) = None"
    by (simp add: processWindow_def inf advanceSpeech_unfold Let_def speaking_facts th)
  have det: "snd (fst (Detect ?sd ?w)) = None"
    using pw
    by (auto simp: Detect_runWindows speaking_facts one_window ms pad
          split: prod.splits option.splits)
  have str: "snd (fst (DetectStream ?sd ?chunk)) = None"
    by (simp add: DetectStream_runWindows speaking_facts windowsOf_short)
  have short: "length (streamBuf ?sd) < windowSize ?sd"
    by (simp add: speaking_facts)
  note T = context_invariant [OF r, of ?w ?w ?chunk]
  from T i1 have c2: "contextOf (snd (Infer ?sd ?w)) = contextAfter (contextOf ?sd) [?w]"
    by blast
  from T det have c3: "contextOf (snd (Detect ?sd ?w))
                         = contextAfter (contextOf ?sd) (windowsOf (windowSize ?sd) ?w)"
    by blast
  from T short str have c4: "contextOf (snd (DetectStream ?sd ?chunk))
      = contextAfter (contextOf ?sd) (windowsOf (windowSize ?sd) (streamBuf ?sd @ ?chunk))"
    by blast
  from T have c5: "contextOf (snd (Reset ?sd)) = replicate contextLen 0" by blast
  from T demo_NewDetector
  have c6: "contextOf (freshDetector demoSession demoCfg) = replicate contextLen 0"
    by blast
  have w1: "windowsOf (windowSize ?sd) ?w = [?w]"
    by (simp add: speaking_facts one_window)
  have w0: "windowsOf (windowSize ?sd) (streamBuf ?sd @ ?chunk) = []"
    by (simp add: speaking_facts windowsOf_short)
  have a0: "contextAfter (contextOf ?sd) [] = contextOf ?sd"
    by (simp add: contextAfter_def)
  show ?thesis
    using r i1 det str short c5 c6
    unfolding c2 c3 c4 w1 w0 a0
    by (simp add: speaking_facts after contextLen_def)
qed

section \<open>Event streams\<close>

lemma appendEvent_acc: "foldl appendEvent acc evs = acc @ foldl appendEvent [] evs"
proof (induction evs arbitrary: acc)
  case Nil
  show ?case by simp
next
  case (Cons ev evs)
  have "foldl appendEvent (appendEvent acc ev) evs = appendEvent acc ev @ foldl appendEvent [] evs"
    by (rule Cons.IH)
  moreover have "foldl appendEvent (appendEvent [] ev) evs
                   = appendEvent [] ev @ foldl appendEvent [] evs"
    by (rule Cons.IH)
  moreover have "appendEvent acc ev = acc @ appendEvent [] ev"
    by (simp add: appendEvent_def Let_def)
  ultimately show ?case by simp
qed

lemma appendEvent_append:
  "foldl appendEvent [] (evs1 @ evs2) = foldl appendEvent [] evs1 @ foldl appendEvent [] evs2"
  using appendEvent_acc [of "foldl appendEvent [] evs1" evs2] by simp

text \<open>
  On a well-shaped event stream the batch rule and the reconstruction from the streaming
  segments give the same list. \<open>acc\<close> is what is already closed, \<open>pend\<close> the open
  segment at the end of the batch list.
\<close>

lemma assemble_reconstruct_gen:
  assumes "eventsFrom pend evs"
  shows "foldl assembleBatch
           (acc @ (case pend of None \<Rightarrow> [] | Some s \<Rightarrow> [\<lparr>SpeechStartAt = s, SpeechEndAt = 0\<rparr>])) evs
         = acc @ reconstruct
             ((case pend of None \<Rightarrow> [] | Some s \<Rightarrow> [\<lparr>SpeechStartAt = s, SpeechEndAt = 0\<rparr>])
              @ foldl appendEvent [] evs)"
  using assms
proof (induction evs arbitrary: pend acc)
  case Nil
  show ?case by (cases pend) simp_all
next
  case (Cons ev evs)
  show ?case
  proof (cases "hasStart ev")
    case True
    with Cons.prems have ne: "\<not> hasEnd ev" and pend: "pend = None"
      and rest: "eventsFrom (Some (startAt ev)) evs"
      by simp_all
    have a: "assembleBatch acc ev = acc @ [\<lparr>SpeechStartAt = startAt ev, SpeechEndAt = 0\<rparr>]"
      using True ne by (simp add: assembleBatch_def)
    have s: "foldl appendEvent [] (ev # evs)
               = [\<lparr>SpeechStartAt = startAt ev, SpeechEndAt = 0\<rparr>] @ foldl appendEvent [] evs"
      using True ne appendEvent_acc [of "appendEvent [] ev" evs]
      by (simp add: appendEvent_def)
    from Cons.IH [OF rest, of acc] show ?thesis
      unfolding pend s using a by simp
  next
    case noStart: False
    show ?thesis
    proof (cases "hasEnd ev")
      case True
      with noStart Cons.prems have pend: "pend = Some (endStartAt ev)"
        and nz: "endAt ev \<noteq> 0" and rest: "eventsFrom None evs"
        by simp_all
      let ?open = "\<lparr>SpeechStartAt = endStartAt ev, SpeechEndAt = 0\<rparr>"
      let ?closed = "\<lparr>SpeechStartAt = endStartAt ev, SpeechEndAt = endAt ev\<rparr>"
      have a: "assembleBatch (acc @ [?open]) ev = acc @ [?closed]"
        using True noStart by (simp add: assembleBatch_def closeOrAppend_def)
      have s: "foldl appendEvent [] (ev # evs) = ?closed # foldl appendEvent [] evs"
        using True noStart appendEvent_acc [of "appendEvent [] ev" evs]
        by (simp add: appendEvent_def)
      have r: "reconstruct (?open # ?closed # foldl appendEvent [] evs)
                 = ?closed # reconstruct (foldl appendEvent [] evs)"
        using nz by simp
      from Cons.IH [OF rest, of "acc @ [?closed]"] show ?thesis
        unfolding pend s using a r by simp
    next
      case False
      with noStart Cons.prems have rest: "eventsFrom pend evs" by simp
      have a: "assembleBatch segs ev = segs" for segs
        using False noStart by (simp add: assembleBatch_def)
      have s: "foldl appendEvent [] (ev # evs) = foldl appendEvent [] evs"
        using False noStart by (simp add: appendEvent_def)
      from Cons.IH [OF rest, of acc] show ?thesis
        unfolding s by (simp add: a)
    qed
  qed
qed

lemma assemble_reconstruct:
  "eventsFrom None evs \<Longrightarrow>
   foldl assembleBatch [] evs = reconstruct (foldl appendEvent [] evs)"
  using assemble_reconstruct_gen [of None evs "[]"] by simp

text \<open>One step of the trigger on a sound trigger state extends a well-shaped stream.\<close>

lemma advanceSpeech_events:
  assumes "triggered sd = pendingStartValid sd" and "0 < currSample sd" and "0 \<le> tempEnd sd"
      and "0 \<le> pad" and "0 < SampleRate (cfg sd)"
  shows "snd (fst (advanceSpeech sd p ms pad)) = None
         \<and> triggered (snd (advanceSpeech sd p ms pad))
             = pendingStartValid (snd (advanceSpeech sd p ms pad))
         \<and> 0 \<le> tempEnd (snd (advanceSpeech sd p ms pad))
         \<and> eventsFrom (pendingOf sd) (fst (fst (advanceSpeech sd p ms pad)) # evs)
             = eventsFrom (pendingOf (snd (advanceSpeech sd p ms pad))) evs"
proof (cases "p \<ge> Threshold (cfg sd)")
  case True
  with assms show ?thesis
    by (cases "triggered sd") (simp_all add: advanceSpeech_unfold Let_def pendingOf_def noEvent_def)
next
  case False
  show ?thesis
  proof (cases "p < Threshold (cfg sd) - 15 / 100 \<and> triggered sd")
    case dip: True
    define rel where "rel = (if tempEnd sd = 0 then currSample sd else tempEnd sd)"
    from assms have rel: "0 < rel" by (simp add: rel_def)
    show ?thesis
    proof (cases "currSample sd - rel < ms")
      case True
      with False dip assms rel show ?thesis
        by (simp add: advanceSpeech_unfold Let_def pendingOf_def noEvent_def rel_def)
    next
      case fin: False
      from rel assms have "rat_of_int (rel + pad) / rat_of_int (SampleRate (cfg sd)) \<noteq> 0"
        by simp
      with False dip assms fin show ?thesis
        by (simp add: advanceSpeech_unfold Let_def pendingOf_def noEvent_def rel_def)
    qed
  next
    case nodip: False
    with False assms show ?thesis
      by (simp add: advanceSpeech_unfold Let_def pendingOf_def noEvent_def)
  qed
qed

section \<open>Runs on a session that never fails\<close>

lemma go_quot_nonneg: "0 \<le> a \<Longrightarrow> 0 < b \<Longrightarrow> 0 \<le> go_quot a b"
  by (simp add: go_quot_def sgn_if pos_imp_zdiv_nonneg_iff)

lemma triggerOk_streamBuf [simp]: "triggerOk (sd\<lparr>streamBuf := x\<rparr>) = triggerOk sd"
  by (simp add: triggerOk_def wellFormed_def)

lemma pendingOf_streamBuf [simp]: "pendingOf (sd\<lparr>streamBuf := x\<rparr>) = pendingOf sd"
  by (simp add: pendingOf_def)

lemma triggerOk_fresh: "IsValid c = None \<Longrightarrow> triggerOk (freshDetector sess c)"
  using wellFormed_fresh [of c sess]
  by (simp add: triggerOk_def IsValid_None) (simp add: freshDetector_def)

lemma processWindow_total:
  assumes ok: "triggerOk sd" and sess: "session sd = (\<lambda>b s r. Inr (f b s r))"
      and len: "length w = windowSize sd" and pad: "0 \<le> pad"
  shows "snd (fst (processWindow sd w ms pad)) = None
         \<and> triggerOk (snd (processWindow sd w ms pad))
         \<and> eventsFrom (pendingOf sd) (fst (fst (processWindow sd w ms pad)) # evs)
             = eventsFrom (pendingOf (snd (processWindow sd w ms pad))) evs"
proof -
  from ok have wf: "wellFormed sd" by (simp add: triggerOk_def)
  then have W: "0 < windowSize sd" and rate: "0 < SampleRate (cfg sd)"
    using wellFormed_windowSize [OF wf] by (auto simp: wellFormed_def)
  obtain p stN where f: "f (take contextLen (inputBuf sd) @ w) (state sd) (rateValue sd) = (p, stN)"
    by (metis surj_pair)
  define sd1 where "sd1 = sd\<lparr>state := take stateLen stN,
                               inputBuf := drop (windowSize sd - contextLen) w @ w\<rparr>"
  have inf: "Infer sd w = ((p, None), sd1)"
    by (simp add: Infer_wellFormed [OF wf len] sess f sd1_def)
  define sd2 where "sd2 = sd1\<lparr>currSample := currSample sd1 + int (windowSize sd1)\<rparr>"
  have pw: "processWindow sd w ms pad = advanceSpeech sd2 p ms pad"
    by (simp add: processWindow_def inf sd2_def)
  have pre: "triggered sd2 = pendingStartValid sd2" "0 < currSample sd2" "0 \<le> tempEnd sd2"
    "0 < SampleRate (cfg sd2)" "pendingOf sd2 = pendingOf sd"
    using ok W rate by (simp_all add: sd2_def sd1_def triggerOk_def pendingOf_def)
  note step = advanceSpeech_events [OF pre(1) pre(2) pre(3) pad pre(4), of p ms evs]
  have wf': "wellFormed (snd (processWindow sd w ms pad))"
    by (rule processWindow_keeps_wellFormed [OF wf])
  have cfg': "cfg (snd (processWindow sd w ms pad)) = cfg sd"
    using processWindow_frame [of sd w ms pad] by simp
  have cur: "0 \<le> currSample (snd (advanceSpeech sd2 p ms pad))"
    using advanceSpeech_frame [of sd2 p ms pad] pre(2) by simp
  have "triggerOk (snd (processWindow sd w ms pad))"
    using wf' cfg' cur step ok unfolding pw [symmetric]
    by (simp add: triggerOk_def pw)
  with step show ?thesis
    unfolding pw pre(5) by simp
qed

lemma runWindows_total:
  assumes "triggerOk sd" and "session sd = (\<lambda>b s r. Inr (f b s r))"
      and "\<forall>w \<in> set ws. length w = windowSize sd" and pad: "0 \<le> pad"
  shows "snd (fst (runWindows sd ws ms pad)) = None
         \<and> triggerOk (snd (runWindows sd ws ms pad))
         \<and> eventsFrom (pendingOf sd) (fst (fst (runWindows sd ws ms pad)))"
  using assms(1,2,3)
proof (induction ws arbitrary: sd)
  case Nil
  then show ?case by simp
next
  case (Cons w ws)
  obtain ev e sd1 where pw: "processWindow sd w ms pad = ((ev, e), sd1)"
    by (metis surj_pair)
  have len: "length w = windowSize sd" using Cons.prems(3) by simp
  from processWindow_total [OF Cons.prems(1,2) len pad, of ms
         "fst (fst (runWindows sd1 ws ms pad))"] pw
  have e: "e = None" and ok1: "triggerOk sd1"
    and ev: "eventsFrom (pendingOf sd) (ev # fst (fst (runWindows sd1 ws ms pad)))
               = eventsFrom (pendingOf sd1) (fst (fst (runWindows sd1 ws ms pad)))"
    by simp_all
  from processWindow_frame [of sd w ms pad] pw Cons.prems(2)
  have sess1: "session sd1 = (\<lambda>b s r. Inr (f b s r))" and cfg1: "cfg sd1 = cfg sd"
    by simp_all
  have "windowSize sd1 = windowSize sd"
    using ok1 Cons.prems(1) cfg1 by (simp add: triggerOk_def wellFormed_def)
  with Cons.prems(3) have lens: "\<forall>w \<in> set ws. length w = windowSize sd1" by simp
  obtain evs e2 sd2 where run: "runWindows sd1 ws ms pad = ((evs, e2), sd2)"
    by (metis surj_pair)
  from Cons.IH [OF ok1 sess1 lens] run
  have "e2 = None" "triggerOk sd2" "eventsFrom (pendingOf sd1) evs" by simp_all
  moreover from ev run have "eventsFrom (pendingOf sd) (ev # evs) = eventsFrom (pendingOf sd1) evs"
    by (simp del: eventsFrom.simps)
  moreover have "runWindows sd (w # ws) ms pad = ((ev # evs, e2), sd2)"
    using pw e run by simp
  ultimately show ?case by (simp del: eventsFrom.simps runWindows.simps)
qed

lemma runWindows_frame:
  "session (snd (runWindows sd ws ms pad)) = session sd
   \<and> cfg (snd (runWindows sd ws ms pad)) = cfg sd"
proof (induction ws arbitrary: sd)
  case Nil
  show ?case by simp
next
  case (Cons w ws)
  obtain ev e sd1 where pw: "processWindow sd w ms pad = ((ev, e), sd1)"
    by (metis surj_pair)
  with processWindow_frame [of sd w ms pad] Cons.IH [of sd1] show ?case
    by (cases e) (auto split: prod.splits)
qed

section \<open>Chunks\<close>

lemma windowsOf_append:
  "0 < W \<Longrightarrow> windowsOf W (xs @ ys) = windowsOf W xs @ windowsOf W (leftover W xs @ ys)"
proof (induction W xs rule: windowsOf.induct)
  case (1 W xs)
  show ?case
  proof (cases "W \<le> length xs")
    case True
    with "1.prems" have "windowsOf W (xs @ ys) = take W xs # windowsOf W (drop W xs @ ys)"
      using windowsOf_step [of W "xs @ ys"] by simp
    with True "1.prems" "1.IH" show ?thesis
      by (simp add: windowsOf_step [of W xs] leftover_step [of W xs])
  next
    case False
    then show ?thesis
      by (simp add: windowsOf_short leftover_short)
  qed
qed

lemma leftover_append:
  "0 < W \<Longrightarrow> leftover W (xs @ ys) = leftover W (leftover W xs @ ys)"
proof (induction W xs rule: leftover.induct)
  case (1 W xs)
  show ?case
  proof (cases "W \<le> length xs")
    case True
    with "1.prems" have "leftover W (xs @ ys) = leftover W (drop W xs @ ys)"
      using leftover_step [of W "xs @ ys"] by simp
    with True "1.prems" "1.IH" show ?thesis
      by (simp add: leftover_step [of W xs])
  next
    case False
    then show ?thesis
      by (simp add: leftover_short)
  qed
qed

lemma runWindows_append:
  "runWindows sd (ws1 @ ws2) ms pad =
     (case runWindows sd ws1 ms pad of
        ((evs1, Some err), sd1) \<Rightarrow> ((evs1, Some err), sd1)
      | ((evs1, None), sd1) \<Rightarrow>
          (case runWindows sd1 ws2 ms pad of ((evs2, e), sd2) \<Rightarrow> ((evs1 @ evs2, e), sd2)))"
proof (induction ws1 arbitrary: sd)
  case Nil
  show ?case by (simp split: prod.splits)
next
  case (Cons w ws1)
  obtain ev e sd1 where pw: "processWindow sd w ms pad = ((ev, e), sd1)"
    by (metis surj_pair)
  show ?case
  proof (cases e)
    case (Some err)
    with pw show ?thesis by simp
  next
    case None
    with pw Cons.IH [of sd1] show ?thesis
      by (simp split: prod.splits option.splits)
  qed
qed

section \<open>Streaming in chunks against one batch call\<close>

lemma replay_stream:
  assumes "triggerOk sd" and "session sd = (\<lambda>b s r. Inr (f b s r))"
      and "length (streamBuf sd) < windowSize sd"
      and "0 \<le> go_quot (wrap64 (SpeechPadMs (cfg sd) * SampleRate (cfg sd))) 1000"
  shows "map snd (fst (replay sd (map CallDetectStream chunks))) = replicate (length chunks) None
         \<and> concat (map fst (fst (replay sd (map CallDetectStream chunks))))
             = foldl appendEvent []
                 (fst (fst (runWindows sd
                    (windowsOf (windowSize sd) (streamBuf sd @ concat chunks))
                    (go_quot (wrap64 (MinSilenceDurationMs (cfg sd) * SampleRate (cfg sd))) 1000)
                    (go_quot (wrap64 (SpeechPadMs (cfg sd) * SampleRate (cfg sd))) 1000))))"
  using assms
proof (induction chunks arbitrary: sd)
  case Nil
  then show ?case by (simp add: windowsOf_short)
next
  case (Cons c cs)
  let ?W = "windowSize sd"
  let ?ms = "go_quot (wrap64 (MinSilenceDurationMs (cfg sd) * SampleRate (cfg sd))) 1000"
  let ?pad = "go_quot (wrap64 (SpeechPadMs (cfg sd) * SampleRate (cfg sd))) 1000"
  let ?b = "streamBuf sd"
  let ?lo = "leftover ?W (?b @ c)"
  from Cons.prems(1) have wf: "wellFormed sd" by (simp add: triggerOk_def)
  then have W: "0 < ?W" and W0: "?W \<noteq> 0" and rate: "0 < SampleRate (cfg sd)"
    using wellFormed_windowSize [OF wf] by (auto simp: wellFormed_def)
  have pad: "0 \<le> ?pad"
    by (rule Cons.prems(4))
  obtain evs1 e1 sd1' where run1: "runWindows sd (windowsOf ?W (?b @ c)) ?ms ?pad = ((evs1, e1), sd1')"
    by (metis surj_pair)
  have lens1: "\<forall>w \<in> set (windowsOf ?W (?b @ c)). length w = ?W"
    by (auto dest: windowsOf_length)
  from runWindows_total [OF Cons.prems(1,2) lens1 pad, of ?ms] run1
  have e1: "e1 = None" and ok1': "triggerOk sd1'" by simp_all
  from runWindows_frame [of sd "windowsOf ?W (?b @ c)" ?ms ?pad] run1 Cons.prems(2)
  have sess1': "session sd1' = (\<lambda>b s r. Inr (f b s r))" and cfg1': "cfg sd1' = cfg sd"
    by simp_all
  have W1': "windowSize sd1' = ?W"
    using ok1' wf cfg1' by (simp add: triggerOk_def wellFormed_def)
  define sd1 where "sd1 = sd1'\<lparr>streamBuf := ?lo\<rparr>"
  have call: "DetectStream sd c = ((foldl appendEvent [] evs1, None), sd1)"
    using run1 e1 by (simp add: DetectStream_runWindows [OF W0 Cons.prems(3)] sd1_def)
  have ok1: "triggerOk sd1" and sess1: "session sd1 = (\<lambda>b s r. Inr (f b s r))"
    and cfg1: "cfg sd1 = cfg sd" and W1: "windowSize sd1 = ?W" and sb1: "streamBuf sd1 = ?lo"
    using ok1' sess1' cfg1' W1' by (simp_all add: sd1_def)
  have buf1: "length (streamBuf sd1) < windowSize sd1"
    using leftover_length [OF W, of "?b @ c"] by (simp add: sb1 W1)
  have pad1: "0 \<le> go_quot (wrap64 (SpeechPadMs (cfg sd1) * SampleRate (cfg sd1))) 1000"
    using pad by (simp add: cfg1)
  note IH = Cons.IH [OF ok1 sess1 buf1 pad1, unfolded cfg1 W1 sb1]
  obtain evs2 e2 sd2' where run2:
    "runWindows sd1' (windowsOf ?W (?lo @ concat cs)) ?ms ?pad = ((evs2, e2), sd2')"
    by (metis surj_pair)
  then have run2s: "fst (fst (runWindows sd1 (windowsOf ?W (?lo @ concat cs)) ?ms ?pad)) = evs2"
    by (simp add: sd1_def runWindows_streamBuf)
  have split: "windowsOf ?W (?b @ concat (c # cs))
                 = windowsOf ?W (?b @ c) @ windowsOf ?W (?lo @ concat cs)"
    using windowsOf_append [OF W, of "?b @ c" "concat cs"] by simp
  have all: "fst (fst (runWindows sd (windowsOf ?W (?b @ concat (c # cs))) ?ms ?pad)) = evs1 @ evs2"
    unfolding split by (simp add: runWindows_append run1 e1 run2)
  have acc: "foldl appendEvent (foldl appendEvent [] evs1) evs2
               = foldl appendEvent [] evs1 @ foldl appendEvent [] evs2"
    by (rule appendEvent_acc)
  show ?case
    unfolding all using call IH run2s
    by (simp add: case_prod_beta acc)
qed

lemma reachable_pad:
  assumes "reachable sd"
  shows "0 \<le> SpeechPadMs (cfg sd)"
  using assms
proof (induction rule: reachable.induct)
  case (constructed ort c sd e)
  then show ?case
    by (auto simp: NewDetector_Some IsValid_None freshDetector_def)
next
  case (afterDetect sd pcm)
  from reachable_invariant [OF afterDetect.hyps] have "wellFormed sd" by simp
  from replay_keeps_setup [OF this, of "[CallDetect pcm]"] afterDetect.IH
  show ?case by (simp add: case_prod_beta)
next
  case (afterDetectStream sd pcm)
  from reachable_invariant [OF afterDetectStream.hyps] have "wellFormed sd" by simp
  from replay_keeps_setup [OF this, of "[CallDetectStream pcm]"] afterDetectStream.IH
  show ?case by (simp add: case_prod_beta)
next
  case (afterInfer sd samples)
  then show ?case using Infer_frame [of sd samples] by simp
next
  case (afterReset sd)
  then show ?case by (simp add: Reset_def)
next
  case (afterSetThreshold sd v)
  then show ?case by (simp add: SetThreshold_def)
qed

lemma start_state:
  assumes "NewDetector ort c = (Some sd0, e) \<or> (\<exists>sd. reachable sd \<and> sd0 = snd (Reset sd))"
  shows "triggerOk sd0 \<and> streamBuf sd0 = [] \<and> pendingOf sd0 = None"
proof -
  have fresh: "triggerOk (freshDetector sess c') \<and> streamBuf (freshDetector sess c') = []
               \<and> pendingOf (freshDetector sess c') = None"
    if "SampleRate c' = 8000 \<or> SampleRate c' = 16000" and "0 \<le> SpeechPadMs c'" for sess c'
    using that wellFormed_fresh [of c' sess]
    by (simp add: triggerOk_def pendingOf_def) (simp add: freshDetector_def)
  from assms show ?thesis
  proof
    assume "NewDetector ort c = (Some sd0, e)"
    then obtain sess where "IsValid c = None" and "sd0 = freshDetector sess c"
      by (auto simp: NewDetector_Some)
    with fresh [of c sess] show ?thesis by (simp add: IsValid_None)
  next
    assume "\<exists>sd. reachable sd \<and> sd0 = snd (Reset sd)"
    then obtain sd where r: "reachable sd" and sd0: "sd0 = snd (Reset sd)" by blast
    from reachable_invariant [OF r] have wf: "wellFormed sd" by simp
    from Reset_fresh [OF wf] sd0 have "sd0 = freshDetector (session sd) (cfg sd)" by simp
    with fresh [of "cfg sd" "session sd"] wf reachable_pad [OF r] show ?thesis
      by (simp add: wellFormed_def)
  qed
qed

text \<open>
  The padding in samples is not negative when the product does not overflow.
\<close>

lemma pad_nonneg_in_range:
  assumes "0 \<le> SpeechPadMs c" and "0 < SampleRate c"
      and "SpeechPadMs c * SampleRate c < 2 ^ 63"
  shows "0 \<le> go_quot (wrap64 (SpeechPadMs c * SampleRate c)) 1000"
proof -
  have "0 \<le> SpeechPadMs c * SampleRate c"
    using assms(1,2) by simp
  with assms(3) have "wrap64 (SpeechPadMs c * SampleRate c) = SpeechPadMs c * SampleRate c"
    by (simp add: wrap64_def)
  with \<open>0 \<le> SpeechPadMs c * SampleRate c\<close> show ?thesis
    by (simp add: go_quot_nonneg)
qed

text \<open>
  C1, for a padding that is not negative in samples. Take a detector as constructed, or
  as \<^verbatim>\<open>Reset\<close> leaves any reachable one, with a session that is a function of input
  buffer, recurrent state and rate, and any split of a sample sequence into chunks, empty
  ones allowed. Let \<^verbatim>\<open>speechPadSamples\<close>, the wrapped product of \<open>SpeechPadMs\<close> and
  \<open>SampleRate\<close> divided by 1000, be at least 0, as it is whenever the product stays
  below \<open>2 ^ 63\<close>. Feeding the chunks to \<^verbatim>\<open>DetectStream\<close> in order, no call fails, and
  the intervals reconstructed from all the segments returned are exactly the list one
  \<^verbatim>\<open>Detect\<close> call returns on the whole sequence from the same state. \<^verbatim>\<open>Detect\<close> fails
  only on less than one window, where it returns no list and the streaming calls return
  no segment.
\<close>

theorem chunking_invariance:
  assumes "NewDetector ort c = (Some sd0, e) \<or> (\<exists>sd. reachable sd \<and> sd0 = snd (Reset sd))"
      and "session sd0 = (\<lambda>buf st rate. Inr (f buf st rate))"
      and "concat chunks = pcm"
      and "0 \<le> go_quot (wrap64 (SpeechPadMs (cfg sd0) * SampleRate (cfg sd0))) 1000"
  shows "fst (fst (Detect sd0 pcm))
           = reconstruct (concat (map fst (fst (replay sd0 (map CallDetectStream chunks)))))
         \<and> map snd (fst (replay sd0 (map CallDetectStream chunks))) = replicate (length chunks) None
         \<and> snd (fst (Detect sd0 pcm))
             = (if length pcm < windowSize sd0 then Some NotEnoughSamples else None)"
proof -
  let ?W = "windowSize sd0"
  let ?ms = "go_quot (wrap64 (MinSilenceDurationMs (cfg sd0) * SampleRate (cfg sd0))) 1000"
  let ?pad = "go_quot (wrap64 (SpeechPadMs (cfg sd0) * SampleRate (cfg sd0))) 1000"
  from start_state [OF assms(1)]
  have ok: "triggerOk sd0" and sb: "streamBuf sd0 = []" and pend: "pendingOf sd0 = None"
    by simp_all
  from ok have wf: "wellFormed sd0" by (simp add: triggerOk_def)
  then have W: "0 < ?W" and W0: "?W \<noteq> 0" and rate: "0 < SampleRate (cfg sd0)"
    using wellFormed_windowSize [OF wf] by (auto simp: wellFormed_def)
  have pad: "0 \<le> ?pad"
    by (rule assms(4))
  obtain evs e' sd' where run: "runWindows sd0 (windowsOf ?W pcm) ?ms ?pad = ((evs, e'), sd')"
    by (metis surj_pair)
  have lens: "\<forall>w \<in> set (windowsOf ?W pcm). length w = ?W"
    by (auto dest: windowsOf_length)
  from runWindows_total [OF ok assms(2) lens pad, of ?ms] run pend
  have e': "e' = None" and shape: "eventsFrom None evs" by simp_all
  have buf: "length (streamBuf sd0) < ?W" using sb W by simp
  from replay_stream [OF ok assms(2) buf pad, of chunks] run
  have noerr: "map snd (fst (replay sd0 (map CallDetectStream chunks)))
                 = replicate (length chunks) None"
    and stream: "concat (map fst (fst (replay sd0 (map CallDetectStream chunks))))
                   = foldl appendEvent [] evs"
    by (simp_all add: sb assms(3))
  show ?thesis
  proof (cases "length pcm < ?W")
    case True
    then have "evs = []"
      using run by (simp add: windowsOf_short)
    with True W0 noerr show ?thesis
      unfolding stream by (simp add: Detect_def)
  next
    case False
    then have "Detect sd0 pcm = ((foldl assembleBatch [] evs, None), sd')"
      using run e' W0 by (simp add: Detect_runWindows)
    with False noerr assemble_reconstruct [OF shape] show ?thesis
      unfolding stream by simp
  qed
qed

lemma demoChunks_concat: "concat demoChunks = demoPcm"
  unfolding demoChunks_def by (simp del: drop_drop)

theorem chunking_invariance_witness:
  "NewDetector (\<lambda>_. Inr demoSession) demoCfg = (Some (freshDetector demoSession demoCfg), None)
   \<and> session (freshDetector demoSession demoCfg) = (\<lambda>buf st rate. Inr (demoModel buf st rate))
   \<and> concat demoChunks = demoPcm
   \<and> 0 \<le> go_quot (wrap64 (SpeechPadMs (cfg (freshDetector demoSession demoCfg))
                              * SampleRate (cfg (freshDetector demoSession demoCfg)))) 1000
   \<and> fst (fst (Detect (freshDetector demoSession demoCfg) demoPcm))
       = reconstruct (concat (map fst (fst (replay (freshDetector demoSession demoCfg)
                                              (map CallDetectStream demoChunks)))))
   \<and> reconstruct (concat (map fst (fst (replay (freshDetector demoSession demoCfg)
                                              (map CallDetectStream demoChunks)))))
       = [\<lparr>SpeechStartAt = 8 / 125, SpeechEndAt = 4 / 25\<rparr>]
   \<and> map snd (fst (replay (freshDetector demoSession demoCfg) (map CallDetectStream demoChunks)))
       = replicate (length demoChunks) None"
proof -
  let ?sd = "freshDetector demoSession demoCfg"
  have sess: "session ?sd = (\<lambda>buf st rate. Inr (demoModel buf st rate))"
    by (simp add: freshDetector_def demoSession_def fun_eq_iff)
  have det: "fst (Detect ?sd demoPcm) = ([\<lparr>SpeechStartAt = 8 / 125, SpeechEndAt = 4 / 25\<rparr>], None)"
    by (rule scenario_Detect [OF _ _ _ _ demo_inferAll]) (simp_all add: demoCfg_def)
  have pad: "0 \<le> go_quot (wrap64 (SpeechPadMs (cfg ?sd) * SampleRate (cfg ?sd))) 1000"
    by (simp add: freshDetector_def demoCfg_def go_quot_def wrap64_def)
  from chunking_invariance [OF disjI1 [OF demo_NewDetector] sess demoChunks_concat pad]
  show ?thesis
    using demo_NewDetector sess demoChunks_concat det pad
    by (simp del: replay.simps)
qed

text \<open>
  C1 as stated fails when the padding overflows. \<open>overflowCfg\<close> is a valid
  configuration with \<^verbatim>\<open>speechPadSamples\<close> \<open>= - 1024\<close>. On one window at 0.6 and one at
  0.1 the segment starts at \<open>(512 - 512 + 1024) / 16000 = 0.064\<close> s and ends at
  \<open>(1024 - 1024) / 16000 = 0\<close>. \<^verbatim>\<open>Detect\<close> writes that end into the open segment, which
  stays \<open>(0.064, 0)\<close>; \<^verbatim>\<open>DetectStream\<close>, fed the whole input as one chunk, returns two
  segments \<open>(0.064, 0)\<close>, neither of which is closed, and the reconstruction keeps both.
\<close>

lemma overflow_pad:
  "go_quot (wrap64 (MinSilenceDurationMs overflowCfg * SampleRate overflowCfg)) 1000 = 0"
  "go_quot (wrap64 (SpeechPadMs overflowCfg * SampleRate overflowCfg)) 1000 = - 1024"
  by (simp_all add: overflowCfg_def demoCfg_def go_quot_def wrap64_def)

lemma overflow_fresh_facts:
  "wellFormed (freshDetector demoSession overflowCfg)"
  "session (freshDetector demoSession overflowCfg) = demoSession"
  "windowSize (freshDetector demoSession overflowCfg) = 512"
  "length (state (freshDetector demoSession overflowCfg)) \<le> stateLen"
  "cfg (freshDetector demoSession overflowCfg) = overflowCfg"
  "streamBuf (freshDetector demoSession overflowCfg) = []"
  by (simp_all add: wellFormed_def freshDetector_def overflowCfg_def demoCfg_def
        windowSizeForSampleRate_def)

lemma overflow_run:
  "fst (runWindows (freshDetector demoSession overflowCfg) (windowsOf 512 overflowPcm) 0 (- 1024))
     = ([noEvent\<lparr>hasStart := True, startAt := 8 / 125\<rparr>,
         noEvent\<lparr>hasEnd := True, endAt := 0, endStartAt := 8 / 125\<rparr>], None)"
proof -
  let ?sd = "freshDetector demoSession overflowCfg"
  have ws: "windowsOf 512 overflowPcm = [replicate 512 (3 / 5), replicate 512 (1 / 10)]"
    by (simp add: overflowPcm_def windowsOf_append_window one_window)
  have probs: "inferAll ?sd (windowsOf 512 overflowPcm) = map (\<lambda>p. (p, None)) [3 / 5, 1 / 10]"
    unfolding ws
    by (simp add: Infer_demo wellFormed_def freshDetector_def overflowCfg_def demoCfg_def
          windowSizeForSampleRate_def contextLen_def stateLen_def)
  have trig: "fst (triggerRun ?sd [3 / 5, 1 / 10] 0 (- 1024))
     = ([noEvent\<lparr>hasStart := True, startAt := 8 / 125\<rparr>,
         noEvent\<lparr>hasEnd := True, endAt := 0, endStartAt := 8 / 125\<rparr>], None)"
    by (simp add: advanceSpeech_unfold Let_def freshDetector_def overflowCfg_def demoCfg_def
          windowSizeForSampleRate_def)
  have "windowSize ?sd \<noteq> 0" by (simp add: overflow_fresh_facts)
  from runWindows_triggerRun [OF sameTrigger_refl this probs, of 0 "- 1024"] trig
  show ?thesis by simp
qed

theorem chunking_invariance_counterexample:
  "IsValid overflowCfg = None
   \<and> go_quot (wrap64 (SpeechPadMs overflowCfg * SampleRate overflowCfg)) 1000 = - 1024
   \<and> NewDetector (\<lambda>_. Inr demoSession) overflowCfg
     = (Some (freshDetector demoSession overflowCfg), None)
   \<and> session (freshDetector demoSession overflowCfg)
       = (\<lambda>buf st rate. Inr (demoModel buf st rate))
   \<and> concat [overflowPcm] = overflowPcm
   \<and> snd (fst (Detect (freshDetector demoSession overflowCfg) overflowPcm)) = None
   \<and> map snd (fst (replay (freshDetector demoSession overflowCfg)
                        (map CallDetectStream [overflowPcm]))) = [None]
   \<and> fst (fst (Detect (freshDetector demoSession overflowCfg) overflowPcm))
       = [\<lparr>SpeechStartAt = 8 / 125, SpeechEndAt = 0\<rparr>]
   \<and> reconstruct (concat (map fst (fst (replay (freshDetector demoSession overflowCfg)
                                              (map CallDetectStream [overflowPcm])))))
       = [\<lparr>SpeechStartAt = 8 / 125, SpeechEndAt = 0\<rparr>,
          \<lparr>SpeechStartAt = 8 / 125, SpeechEndAt = 0\<rparr>]"
proof -
  let ?sd = "freshDetector demoSession overflowCfg"
  have valid: "IsValid overflowCfg = None"
    by (simp add: IsValid_None overflowCfg_def demoCfg_def)
  then have new: "NewDetector (\<lambda>_. Inr demoSession) overflowCfg = (Some ?sd, None)"
    by (simp add: NewDetector_Some)
  have sess: "session ?sd = (\<lambda>buf st rate. Inr (demoModel buf st rate))"
    by (simp add: freshDetector_def demoSession_def fun_eq_iff)
  have len: "length overflowPcm = 1024" by (simp add: overflowPcm_def)
  obtain evs e sd' where run:
    "runWindows ?sd (windowsOf 512 overflowPcm) 0 (- 1024) = ((evs, e), sd')"
    by (metis surj_pair)
  with overflow_run have evs: "evs = [noEvent\<lparr>hasStart := True, startAt := 8 / 125\<rparr>,
         noEvent\<lparr>hasEnd := True, endAt := 0, endStartAt := 8 / 125\<rparr>]" and e: "e = None"
    by simp_all
  have batch: "foldl assembleBatch [] evs = [\<lparr>SpeechStartAt = 8 / 125, SpeechEndAt = 0\<rparr>]"
    by (simp add: evs assembleBatch_def closeOrAppend_def noEvent_def)
  have stream: "foldl appendEvent [] evs = [\<lparr>SpeechStartAt = 8 / 125, SpeechEndAt = 0\<rparr>,
          \<lparr>SpeechStartAt = 8 / 125, SpeechEndAt = 0\<rparr>]"
    by (simp add: evs appendEvent_def noEvent_def)
  have det: "Detect ?sd overflowPcm = ((foldl assembleBatch [] evs, None), sd')"
    using run e len
    by (simp add: Detect_runWindows overflow_fresh_facts overflow_pad)
  have str: "DetectStream ?sd overflowPcm
               = ((foldl appendEvent [] evs, None), sd'\<lparr>streamBuf := leftover 512 overflowPcm\<rparr>)"
    using run e
    by (simp add: DetectStream_runWindows overflow_fresh_facts overflow_pad)
  show ?thesis
    using valid overflow_pad(2) new sess det str unfolding batch stream by simp
qed

end
